theory Spec2Isabelle
  imports Main "HOL-Library.Word" "HOL-Library.Char_ord" "HOL-Library.Multiset"
    "HOL-Library.Product_Lexorder"
begin

unbundle bit_operations_syntax

section \<open>Data model (parsebin.h)\<close>

type_synonym byte = "8 word"
type_synonym uint32 = "32 word"

text \<open>
  \<^verbatim>\<open>struct Record\<close>. The element type of \<^verbatim>\<open>floatValues\<close> is a type parameter:
  IEEE-754 arithmetic is not modelled, and every function that produces or prints a
  \<^verbatim>\<open>float\<close> takes the floating-point step as an argument.
\<close>

record 'f Record =
  year :: int
  month :: int
  day :: int
  hour :: int
  minute :: int
  second :: int
  dateStr :: string
  timeStr :: string
  floatValues :: "'f list"

text \<open>Every \<^verbatim>\<open>throw std::runtime_error(...)\<close> of parsebin.cpp, one constructor each.\<close>

datatype error =
    HexTooShort          \<comment> \<open>parseHexAsFloatLittleEndian: size < 8\<close>
  | InvalidHexChar       \<comment> \<open>parseHexAsFloatLittleEndian: character outside 0-9 A-F a-f\<close>
  | TimeFieldTooShort    \<comment> \<open>parseDateTimeFromTwoHex: hex1 or hex2 shorter than 8\<close>
  | NotDecimalDigit      \<comment> \<open>decToInt\<close>
  | YearOutOfRange
  | MonthInvalid
  | DayInvalid
  | HourInvalid
  | MinuteInvalid
  | SecondInvalid
  | CannotOpenFile       \<comment> \<open>parseBinFile: fopen returned NULL\<close>
  | FseekFailed          \<comment> \<open>parseBinFile: fseek returned non-zero\<close>

section \<open>swapBigEndianToHost\<close>

text \<open>The portable branch of the source; the two compiler builtins compute the same swap.\<close>

definition swapBigEndianToHost :: "uint32 \<Rightarrow> uint32" where
  "swapBigEndianToHost v =
     drop_bit 24 (v AND 0xFF000000) OR
     drop_bit 8 (v AND 0x00FF0000) OR
     push_bit 8 (v AND 0x0000FF00) OR
     push_bit 24 (v AND 0x000000FF)"

section \<open>parseHexAsFloatLittleEndian\<close>

text \<open>
  The \<^verbatim>\<open>for (char c : hex8)\<close> loop: shift the accumulator left by four bits, then OR
  in the digit; the first character outside the three ranges throws.
\<close>

fun hexLoop :: "uint32 \<Rightarrow> string \<Rightarrow> error + uint32" where
  "hexLoop val [] = Inr val"
| "hexLoop val (c # cs) =
     (let v = push_bit 4 val in
      if CHR ''0'' \<le> c \<and> c \<le> CHR ''9'' then
        hexLoop (v OR of_nat (of_char c - of_char CHR ''0'')) cs
      else if CHR ''A'' \<le> c \<and> c \<le> CHR ''F'' then
        hexLoop (v OR of_nat (of_char c - of_char CHR ''A'' + 10)) cs
      else if CHR ''a'' \<le> c \<and> c \<le> CHR ''f'' then
        hexLoop (v OR of_nat (of_char c - of_char CHR ''a'' + 10)) cs
      else Inl InvalidHexChar)"

text \<open>
  The value of \<^verbatim>\<open>val\<close> before the swap (source lines 35-46): the length check, then
  the loop from 0.
\<close>

definition hexToUint32 :: "string \<Rightarrow> error + uint32" where
  "hexToUint32 hex8 = (if length hex8 < 8 then Inl HexTooShort else hexLoop 0 hex8)"

text \<open>
  \<^verbatim>\<open>toFloat\<close> stands for lines 51-55: the bit pattern is copied into a \<^verbatim>\<open>float\<close>,
  multiplied by 100.0 as a double, rounded, divided by 100.0 and cast back.
\<close>

definition parseHexAsFloatLittleEndian :: "(uint32 \<Rightarrow> 'f) \<Rightarrow> string \<Rightarrow> error + 'f" where
  "parseHexAsFloatLittleEndian toFloat hex8 =
     (case hexToUint32 hex8 of
        Inl e \<Rightarrow> Inl e
      | Inr val \<Rightarrow> Inr (toFloat (swapBigEndianToHost val)))"

section \<open>Number formatting\<close>

text \<open>\<^verbatim>\<open>snprintf(buf, sizeof(buf), "%08X", v)\<close>: upper-case hexadecimal digits, padded
  with zeros on the left to at least eight characters.\<close>

definition hexDigitUpper :: "nat \<Rightarrow> char" where
  "hexDigitUpper d = ''0123456789ABCDEF'' ! d"

fun hexUpper :: "nat \<Rightarrow> string" where
  "hexUpper n = (if n < 16 then [hexDigitUpper n]
                 else hexUpper (n div 16) @ [hexDigitUpper (n mod 16)])"

declare hexUpper.simps [simp del]

definition padLeft :: "nat \<Rightarrow> char \<Rightarrow> string \<Rightarrow> string" where
  "padLeft w c s = replicate (w - length s) c @ s"

definition snprintf_08X :: "uint32 \<Rightarrow> string" where
  "snprintf_08X v = padLeft 8 CHR ''0'' (hexUpper (unat v))"

text \<open>\<^verbatim>\<open>oss << n\<close> for an \<^verbatim>\<open>int\<close>: decimal digits, a minus sign when negative.\<close>

definition decDigit :: "nat \<Rightarrow> char" where
  "decDigit d = ''0123456789'' ! d"

fun decDigits :: "nat \<Rightarrow> string" where
  "decDigits n = (if n < 10 then [decDigit n]
                 else decDigits (n div 10) @ [decDigit (n mod 10)])"

declare decDigits.simps [simp del]

definition showInt :: "int \<Rightarrow> string" where
  "showInt i = (if i < 0 then CHR ''-'' # decDigits (nat (- i)) else decDigits (nat i))"

text \<open>\<^verbatim>\<open>oss << std::setw(2) << std::setfill('0') << n\<close>.\<close>

definition setw2 :: "int \<Rightarrow> string" where
  "setw2 n = padLeft 2 CHR ''0'' (showInt n)"

section \<open>parseDateTimeFromTwoHex\<close>

text \<open>
  The lambda \<^verbatim>\<open>decToInt\<close>. Both indices are in range at every call: the caller has
  checked that the string has at least 8 characters and \<^verbatim>\<open>pos\<close> is at most 6.
\<close>

definition decToInt :: "string \<Rightarrow> nat \<Rightarrow> error + int" where
  "decToInt s pos =
     (let c1 = s ! pos; c2 = s ! (pos + 1) in
      if c1 < CHR ''0'' \<or> c1 > CHR ''9'' \<or> c2 < CHR ''0'' \<or> c2 > CHR ''9''
      then Inl NotDecimalDigit
      else Inr ((of_char c1 - of_char CHR ''0'') * 10 + (of_char c2 - of_char CHR ''0'')))"

text \<open>Sequencing of computations that may throw.\<close>

definition bindE :: "error + 'a \<Rightarrow> ('a \<Rightarrow> error + 'b) \<Rightarrow> error + 'b" where
  "bindE m k = (case m of Inl e \<Rightarrow> Inl e | Inr x \<Rightarrow> k x)"

definition parseDateTimeFromTwoHex :: "string \<Rightarrow> string \<Rightarrow> error + 'f Record" where
  "parseDateTimeFromTwoHex hex1 hex2 =
     (if length hex1 < 8 \<or> length hex2 < 8 then Inl TimeFieldTooShort
      else
        bindE (decToInt hex1 0) (\<lambda>YY.
        bindE (decToInt hex1 2) (\<lambda>MM.
        bindE (decToInt hex1 4) (\<lambda>DD.
        bindE (decToInt hex1 6) (\<lambda>hh.
        bindE (decToInt hex2 0) (\<lambda>mm.
        bindE (decToInt hex2 2) (\<lambda>ss.
          let year = 2000 + YY in
          if year < 2000 \<or> year > 2100 then Inl YearOutOfRange
          else if MM < 1 \<or> MM > 12 then Inl MonthInvalid
          else if DD < 1 \<or> DD > 31 then Inl DayInvalid
          else if hh < 0 \<or> hh > 23 then Inl HourInvalid
          else if mm < 0 \<or> mm > 59 then Inl MinuteInvalid
          else if ss < 0 \<or> ss > 59 then Inl SecondInvalid
          else Inr \<lparr> year = year, month = MM, day = DD,
                     hour = hh, minute = mm, second = ss,
                     dateStr = showInt year @ ''/'' @ setw2 MM @ ''/'' @ setw2 DD,
                     timeStr = setw2 hh @ '':'' @ setw2 mm @ '':'' @ setw2 ss,
                     floatValues = [] \<rparr>)))))))"

section \<open>parseBinFile\<close>

subsection \<open>The C stream\<close>

text \<open>
  A \<^verbatim>\<open>FILE*\<close> opened with "rb" on a regular file: the bytes of the file and the
  position indicator. \<^verbatim>\<open>fseek(fp, off, SEEK_SET)\<close> fails on a negative offset and
  otherwise sets the position, also past the end of the data (POSIX: "The fseek() function
  shall allow the file-position indicator to be set beyond the end of the existing data in
  the file"). \<^verbatim>\<open>fread(buf, 1, n, fp)\<close> delivers the bytes from the position on, at most
  \<^verbatim>\<open>n\<close> of them and none when the position is at or past the end.
\<close>

record FILE =
  content :: "byte list"
  pos :: nat

definition fseek_set :: "FILE \<Rightarrow> int \<Rightarrow> int \<times> FILE" where
  "fseek_set fp off = (if off < 0 then (- 1, fp) else (0, fp\<lparr>pos := nat off\<rparr>))"

definition fread :: "nat \<Rightarrow> FILE \<Rightarrow> byte list \<times> FILE" where
  "fread n fp =
     (let got = take n (drop (pos fp) (content fp))
      in (got, fp\<lparr>pos := pos fp + length got\<rparr>))"

subsection \<open>One block\<close>

text \<open>Lines 150-156: four bytes at \<^verbatim>\<open>offset\<close>, most significant first.\<close>

definition beWord :: "byte list \<Rightarrow> nat \<Rightarrow> uint32" where
  "beWord buffer offset =
     push_bit 24 (ucast (buffer ! (offset + 0))) OR
     push_bit 16 (ucast (buffer ! (offset + 1))) OR
     push_bit 8 (ucast (buffer ! (offset + 2))) OR
     ucast (buffer ! (offset + 3))"

text \<open>Lines 144-177: the words of a full block, word 0 dropped in the first block, each
  rendered with "%08X".\<close>

definition blockHexVals :: "bool \<Rightarrow> byte list \<Rightarrow> string list" where
  "blockHexVals firstRead buffer =
     (let intCount = (if firstRead then 33 else 32 :: nat);
          values = map (\<lambda>i. beWord buffer (i * 4)) [0..<intCount];
          mainVals = (if firstRead then drop 1 values else values)
      in map snprintf_08X mainVals)"

subsection \<open>One group\<close>

text \<open>Lines 200-203: the floats of \<^verbatim>\<open>group[2..]\<close>, pushed onto \<^verbatim>\<open>fvals\<close>; an
  exception of the float parser leaves the loop.\<close>

fun floatLoop :: "(uint32 \<Rightarrow> 'f) \<Rightarrow> string list \<Rightarrow> 'f list \<Rightarrow> error + 'f list" where
  "floatLoop toFloat [] fvals = Inr fvals"
| "floatLoop toFloat (h # hs) fvals =
     (case parseHexAsFloatLittleEndian toFloat h of
        Inl e \<Rightarrow> Inl e
      | Inr fv \<Rightarrow> floatLoop toFloat hs (fvals @ [fv]))"

text \<open>
  The body of the \<^verbatim>\<open>for\<close> loop over groups (lines 181-206), as a function of the 16
  strings of the group and of \<^verbatim>\<open>rows\<close>. \<^verbatim>\<open>continue\<close> returns \<^verbatim>\<open>rows\<close>
  unchanged; the exception of the timestamp parser is caught (\<^verbatim>\<open>catch(...)\<close>), the one
  of the float parser is not and leaves \<^verbatim>\<open>parseBinFile\<close>.
\<close>

definition processGroup ::
  "(uint32 \<Rightarrow> 'f) \<Rightarrow> string list \<Rightarrow> 'f Record list \<Rightarrow> error + 'f Record list" where
  "processGroup toFloat group16 rows =
     (let group = tl group16 in
      if length group < 2 then Inr rows
      else
        case parseDateTimeFromTwoHex (group ! 0) (group ! 1) of
          Inl _ \<Rightarrow> Inr rows
        | Inr r \<Rightarrow>
            if length group < 15 then Inr rows
            else
              case floatLoop toFloat (drop 2 group) [] of
                Inl e \<Rightarrow> Inl e
              | Inr fvals \<Rightarrow> Inr (rows @ [r\<lparr>floatValues := fvals\<rparr>]))"

subsection \<open>The two loops\<close>

text \<open>
  \<^verbatim>\<open>for (size_t i = 0; i + 16 <= hexVals.size(); i += 16)\<close>. The loop body is the
  argument \<^verbatim>\<open>body\<close>, so that the same loop can be run with \<^const>\<open>processGroup\<close> (the
  program) and with a body that only records the group it is given.
\<close>

function groupLoop ::
  "(string list \<Rightarrow> 'a \<Rightarrow> error + 'a) \<Rightarrow> string list \<Rightarrow> nat \<Rightarrow> 'a \<Rightarrow> error + 'a" where
  "groupLoop body hexVals i acc =
     (if i + 16 \<le> length hexVals then
        case body (take 16 (drop i hexVals)) acc of
          Inl e \<Rightarrow> Inl e
        | Inr acc' \<Rightarrow> groupLoop body hexVals (i + 16) acc'
      else Inr acc)"
  by pat_completeness auto
termination
  by (relation "measure (\<lambda>(body, hexVals, i, acc). length hexVals - i)") auto

declare groupLoop.simps [simp del]

text \<open>
  \<^verbatim>\<open>while (true)\<close>, lines 133-208: a first read of 132 bytes, then reads of 128 bytes,
  until a read comes back short.
\<close>

function readLoop ::
  "(string list \<Rightarrow> 'a \<Rightarrow> error + 'a) \<Rightarrow> FILE \<Rightarrow> bool \<Rightarrow> 'a \<Rightarrow> error + 'a" where
  "readLoop body fp firstRead acc =
     (let blockSize = (if firstRead then 132 else 128 :: nat);
          buffer = fst (fread blockSize fp);
          fp' = snd (fread blockSize fp)
      in if length buffer < blockSize then Inr acc
         else
           case groupLoop body (blockHexVals firstRead buffer) 0 acc of
             Inl e \<Rightarrow> Inl e
           | Inr acc' \<Rightarrow> readLoop body fp' False acc')"
  by pat_completeness auto
termination
proof (relation "measure (\<lambda>(body, fp, firstRead, acc). length (content fp) - pos fp)")
  show "wf (measure (\<lambda>(body, fp, firstRead, acc). length (content fp) - pos fp))"
    by simp
next
  fix body :: "string list \<Rightarrow> 'a \<Rightarrow> error + 'a"
    and fp firstRead blockSize buffer fp' and acc acc' :: 'a
  assume bs: "blockSize = (if firstRead then 132 else (128::nat))"
    and bf: "buffer = fst (fread blockSize fp)"
    and fp': "fp' = snd (fread blockSize fp)"
    and full: "\<not> length buffer < blockSize"
  from bs have "0 < blockSize" by simp
  with bf full have "pos fp + blockSize \<le> length (content fp)"
    by (simp add: fread_def Let_def)
  with bf fp' \<open>0 < blockSize\<close> full
  show "((body, fp', False, acc'), (body, fp, firstRead, acc))
          \<in> measure (\<lambda>(body, fp, firstRead, acc). length (content fp) - pos fp)"
    by (simp add: fread_def Let_def)
qed

declare readLoop.simps [simp del]

text \<open>
  \<^verbatim>\<open>parseBinFile\<close> around the body of its inner loop: \<^verbatim>\<open>fopen\<close>, \<^verbatim>\<open>fseek\<close>,
  the \<^verbatim>\<open>while\<close> loop, and no \<^verbatim>\<open>try\<close> anywhere outside the body. The argument
  \<^verbatim>\<open>file\<close> is what \<^verbatim>\<open>fopen\<close> finds under the file name: \<^const>\<open>None\<close> when the
  file cannot be opened, the bytes of the file otherwise.
\<close>

definition parseBinFileWith ::
  "(string list \<Rightarrow> 'a list \<Rightarrow> error + 'a list) \<Rightarrow> byte list option \<Rightarrow> error + 'a list" where
  "parseBinFileWith body file =
     (case file of
        None \<Rightarrow> Inl CannotOpenFile
      | Some bytes \<Rightarrow>
          let fp = \<lparr> content = bytes, pos = 0 \<rparr>;
              rc = fst (fseek_set fp 0xC0);
              fp1 = snd (fseek_set fp 0xC0)
          in if rc \<noteq> 0 then Inl FseekFailed
             else readLoop body fp1 True [])"

text \<open>\<^verbatim>\<open>parseBinFile\<close>: the loops run with the body of the source.\<close>

definition parseBinFile ::
  "(uint32 \<Rightarrow> 'f) \<Rightarrow> byte list option \<Rightarrow> error + 'f Record list" where
  "parseBinFile toFloat file = parseBinFileWith (processGroup toFloat) file"

section \<open>writeCsv\<close>

text \<open>The comparator handed to \<^verbatim>\<open>std::sort\<close> (lines 218-225).\<close>

definition recLess :: "'f Record \<Rightarrow> 'f Record \<Rightarrow> bool" where
  "recLess a b =
     (if year a \<noteq> year b then year a < year b
      else if month a \<noteq> month b then month a < month b
      else if day a \<noteq> day b then day a < day b
      else if hour a \<noteq> hour b then hour a < hour b
      else if minute a \<noteq> minute b then minute a < minute b
      else second a < second b)"

text \<open>
  \<^verbatim>\<open>std::sort\<close> is not stable and the standard fixes no algorithm: all that is known
  of its result is that it is a rearrangement of the input in which no element is less
  than an earlier one. \<^verbatim>\<open>writeCsv\<close> therefore takes the sorted vector as the value of a
  function \<^verbatim>\<open>sortFn\<close>, and the theorems about it assume no more than this.
\<close>

definition stdSortResult :: "'f Record list \<Rightarrow> 'f Record list \<Rightarrow> bool" where
  "stdSortResult rowsIn rows =
     (mset rows = mset rowsIn \<and> sorted_wrt (\<lambda>a b. \<not> recLess b a) rows)"

text \<open>
  Lines 228-239. \<^verbatim>\<open>last\<close> is null exactly while \<^verbatim>\<open>uniqueRows\<close> is empty and
  afterwards points to its last element (the \<^verbatim>\<open>reserve\<close> keeps the pointer valid).
\<close>

fun dedupLoop :: "'f Record list \<Rightarrow> 'f Record list \<Rightarrow> 'f Record list" where
  "dedupLoop [] uniqueRows = uniqueRows"
| "dedupLoop (r # rs) uniqueRows =
     (if uniqueRows = [] \<or>
         year r \<noteq> year (last uniqueRows) \<or> month r \<noteq> month (last uniqueRows) \<or>
         day r \<noteq> day (last uniqueRows) \<or> hour r \<noteq> hour (last uniqueRows) \<or>
         minute r \<noteq> minute (last uniqueRows) \<or> second r \<noteq> second (last uniqueRows)
      then dedupLoop rs (uniqueRows @ [r])
      else dedupLoop rs uniqueRows)"

text \<open>The header line, as the UTF-8 bytes of the string literal of lines 301-308.\<close>

definition csvHeader :: string where
  "csvHeader =
     map char_of [230, 151, 165, 230, 156, 159 :: nat] @
     '','' @
     map char_of [230, 151, 182, 233, 151, 180 :: nat] @
     '','' @
     map char_of [229, 142, 139, 229, 138, 155, 232, 174, 190, 229, 174, 154 :: nat] @
     ''/mbar,'' @
     map char_of [229, 174, 158, 233, 153, 133, 229, 142, 139, 229, 138, 155 :: nat] @
     ''/mbar,'' @
     map char_of [232, 174, 190, 229, 174, 154, 230, 184, 169, 229, 186, 166 :: nat] @
     ''/'' @
     map char_of [226, 132, 131 :: nat] @
     '','' @
     map char_of [229, 174, 158, 233, 153, 133, 230, 184, 169, 229, 186, 166 :: nat] @
     ''/'' @
     map char_of [226, 132, 131 :: nat] @
     '','' @
     map char_of [232, 174, 190, 229, 174, 154, 229, 138, 159, 231, 142, 135 :: nat] @
     ''/KW,'' @
     map char_of [229, 174, 158, 233, 153, 133, 229, 138, 159, 231, 142, 135 :: nat] @
     ''/KW,'' @
     map char_of [229, 138, 160, 231, 131, 173, 231, 148, 181, 233, 152, 187 :: nat] @
     ''/m'' @
     map char_of [206, 169 :: nat] @
     '','' @
     map char_of [229, 138, 160, 231, 131, 173, 231, 148, 181, 229, 142, 139 :: nat] @
     ''/V,'' @
     map char_of [229, 138, 160, 231, 131, 173, 231, 148, 181, 230, 181, 129 :: nat] @
     ''/A,'' @
     map char_of [230, 175, 171, 230, 137, 152, 232, 174, 161 :: nat] @
     ''/Pa,'' @
     map char_of [230, 176, 169, 230, 176, 148, 230, 181, 129, 233, 135, 143 :: nat] @
     ''/SLM,'' @
     map char_of [230, 184, 169, 229, 141, 135 :: nat] @
     ''/'' @
     map char_of [226, 132, 131 :: nat] @
     ''/min,'' @
     map char_of [230, 176, 159, 229, 136, 169, 230, 152, 130, 230, 181, 129, 233, 135, 143 :: nat] @
     ''/SLM'' @
     map char_of [10 :: nat]"

text \<open>
  Lines 312-314: the vector \<^verbatim>\<open>r.floatValues\<close> as it is when the row is rendered, the
  elements at indices 11 and 12 exchanged when there are exactly 13.
\<close>

definition swappedValues :: "'f list \<Rightarrow> 'f list" where
  "swappedValues fv =
     (if length fv = 13 then fv[11 := fv ! 12, 12 := fv ! 11] else fv)"

text \<open>
  Lines 317-320: every value through \<^verbatim>\<open>oss << float\<close> (the argument
  \<^verbatim>\<open>showFloat\<close>), a comma after each but the last.
\<close>

fun joinComma :: "string list \<Rightarrow> string" where
  "joinComma [] = []"
| "joinComma [c] = c"
| "joinComma (c # cs) = c @ '','' @ joinComma cs"

definition rowColumns :: "('f \<Rightarrow> string) \<Rightarrow> 'f Record \<Rightarrow> string list" where
  "rowColumns showFloat r = map showFloat (swappedValues (floatValues r))"

definition renderRow :: "('f \<Rightarrow> string) \<Rightarrow> 'f Record \<Rightarrow> string" where
  "renderRow showFloat r =
     dateStr r @ '','' @ timeStr r @ '','' @ joinComma (rowColumns showFloat r) @ [CHR 0x0A]"

definition uniqueRows :: "('f Record list \<Rightarrow> 'f Record list) \<Rightarrow> 'f Record list \<Rightarrow> 'f Record list" where
  "uniqueRows sortFn rowsIn = dedupLoop (sortFn rowsIn) []"

text \<open>
  \<^verbatim>\<open>std::fprintf(fp, "%s", s.c_str())\<close>: the characters of \<^verbatim>\<open>s\<close> before its first
  NUL character, all of \<^verbatim>\<open>s\<close> when it has none.
\<close>

definition fprintf_s :: "string \<Rightarrow> string" where
  "fprintf_s s = takeWhile (\<lambda>c. c \<noteq> CHR 0x00) s"

text \<open>
  \<^verbatim>\<open>writeCsv\<close>, the branch for platforms other than Windows: what the calls of
  \<^verbatim>\<open>fprintf\<close> write to the file, in order, one list element for each call.
  \<^verbatim>\<open>canCreate\<close> says whether \<^verbatim>\<open>fopen(csvFilename, "w")\<close> succeeds. (The Windows
  branch sorts, removes duplicates, swaps and renders in the same way and then hands each
  line, up to its first NUL as well, to the code-page conversion of the operating system,
  which is outside this model.)
\<close>

datatype csvError = CannotCreateCsv

definition writeCsv ::
  "('f Record list \<Rightarrow> 'f Record list) \<Rightarrow> ('f \<Rightarrow> string) \<Rightarrow> bool \<Rightarrow> 'f Record list
     \<Rightarrow> csvError + string list" where
  "writeCsv sortFn showFloat canCreate rowsIn =
     (let rows = uniqueRows sortFn rowsIn in
      if \<not> canCreate then Inl CannotCreateCsv
      else Inr (fprintf_s csvHeader # map (\<lambda>r. fprintf_s (renderRow showFloat r)) rows))"

section \<open>Notions used to state the properties\<close>

subsection \<open>Groups and kept words, as the specification describes them\<close>

text \<open>Consecutive pieces of \<^verbatim>\<open>n\<close> elements; a shorter rest is dropped.\<close>

fun chunks :: "nat \<Rightarrow> 'a list \<Rightarrow> 'a list list" where
  "chunks n xs =
     (if n = 0 \<or> length xs < n then [] else take n xs # chunks n (drop n xs))"

declare chunks.simps [simp del]

text \<open>"Partition the resulting hex-string sequence into consecutive groups of 16. A
  trailing partial group (fewer than 16 remaining) is discarded."\<close>

definition groups16_spec :: "string list \<Rightarrow> string list list" where
  "groups16_spec hexWords = chunks 16 hexWords"

text \<open>The big-endian words of a block, each from four consecutive bytes.\<close>

definition blockWords_spec :: "byte list \<Rightarrow> uint32 list" where
  "blockWords_spec block = map (\<lambda>quad. beWord quad 0) (chunks 4 block)"

text \<open>
  The concatenation of all kept hex words of the whole file: the 192-byte preamble is
  skipped, the first block has 132 bytes and loses its word 0, every later block has 128
  bytes, a rest shorter than a block ends the sequence, and every kept word is rendered
  with eight upper-case hexadecimal digits.
\<close>

definition keptHexWords_spec :: "byte list \<Rightarrow> string list" where
  "keptHexWords_spec bytes =
     (let body = drop 192 bytes in
      if length body < 132 then []
      else map snprintf_08X (drop 1 (blockWords_spec (take 132 body))) @
           concat (map (\<lambda>block. map snprintf_08X (blockWords_spec block))
                       (chunks 128 (drop 132 body))))"

text \<open>The same words before they are rendered.\<close>

definition keptWords_spec :: "byte list \<Rightarrow> uint32 list" where
  "keptWords_spec bytes =
     (let body = drop 192 bytes in
      if length body < 132 then []
      else drop 1 (blockWords_spec (take 132 body)) @
           concat (map blockWords_spec (chunks 128 (drop 132 body))))"

text \<open>
  What one group of 16 words contributes to the result, by steps 8 to 12 of the decoder:
  nothing when the timestamp sub-decode fails on the renderings of words 1 and 2, and
  otherwise one record, with that timestamp and the floats of words 3 to 15.
\<close>

definition decodeWords_spec :: "(uint32 \<Rightarrow> 'f) \<Rightarrow> uint32 list \<Rightarrow> 'f Record list" where
  "decodeWords_spec toFloat ws =
     (case parseDateTimeFromTwoHex (snprintf_08X (ws ! 1)) (snprintf_08X (ws ! 2)) of
        Inl _ \<Rightarrow> []
      | Inr r \<Rightarrow> [r\<lparr>floatValues := map (\<lambda>w. toFloat (swapBigEndianToHost w)) (drop 3 ws)\<rparr>])"

text \<open>A loop body run over a list of groups, in order, stopping at the first exception.\<close>

fun forEachGroup ::
  "(string list \<Rightarrow> 'a \<Rightarrow> error + 'a) \<Rightarrow> string list list \<Rightarrow> 'a \<Rightarrow> error + 'a" where
  "forEachGroup body [] acc = Inr acc"
| "forEachGroup body (g # gs) acc =
     (case body g acc of Inl e \<Rightarrow> Inl e | Inr acc' \<Rightarrow> forEachGroup body gs acc')"

text \<open>
  The groups the two loops of \<^verbatim>\<open>parseBinFile\<close> hand to their body: the loops of the
  program, run with a body that appends the group it is given to a log.
\<close>

definition recordGroup :: "string list \<Rightarrow> string list list \<Rightarrow> error + string list list" where
  "recordGroup g seen = Inr (seen @ [g])"

definition groupsVisited :: "byte list \<Rightarrow> error + string list list" where
  "groupsVisited bytes =
     readLoop recordGroup (snd (fseek_set \<lparr> content = bytes, pos = 0 \<rparr> 0xC0)) True []"

subsection \<open>Hexadecimal text\<close>

text \<open>The \<^verbatim>\<open>k\<close> low hexadecimal digits of \<^verbatim>\<open>n\<close>, most significant first.\<close>

fun hexFixed :: "nat \<Rightarrow> nat \<Rightarrow> string" where
  "hexFixed 0 n = []"
| "hexFixed (Suc k) n = hexFixed k (n div 16) @ [hexDigitUpper (n mod 16)]"

text \<open>\<^verbatim>\<open>toupper\<close> of the C locale.\<close>

definition toupperC :: "char \<Rightarrow> char" where
  "toupperC c =
     (if CHR ''a'' \<le> c \<and> c \<le> CHR ''z'' then char_of (of_char c - 32 :: nat) else c)"

subsection \<open>Timestamps\<close>

text \<open>The invariant of a \<^verbatim>\<open>Record\<close> as section 3 of the specification states it.\<close>

definition twoDigits :: "int \<Rightarrow> string" where
  "twoDigits n = [decDigit (nat n div 10), decDigit (nat n mod 10)]"

definition fourDigits :: "int \<Rightarrow> string" where
  "fourDigits n =
     [decDigit (nat n div 1000), decDigit (nat n div 100 mod 10),
      decDigit (nat n div 10 mod 10), decDigit (nat n mod 10)]"

definition recordInvariant :: "'f Record \<Rightarrow> bool" where
  "recordInvariant r =
     (2000 \<le> year r \<and> year r \<le> 2100 \<and>
      1 \<le> month r \<and> month r \<le> 12 \<and>
      1 \<le> day r \<and> day r \<le> 31 \<and>
      0 \<le> hour r \<and> hour r \<le> 23 \<and>
      0 \<le> minute r \<and> minute r \<le> 59 \<and>
      0 \<le> second r \<and> second r \<le> 59 \<and>
      length (floatValues r) = 13 \<and>
      dateStr r = fourDigits (year r) @ ''/'' @ twoDigits (month r) @ ''/'' @ twoDigits (day r) \<and>
      timeStr r = twoDigits (hour r) @ '':'' @ twoDigits (minute r) @ '':'' @ twoDigits (second r))"

text \<open>
  A record is the complete decoding of a group: its timestamp is what the timestamp parser
  returns on elements 1 and 2, and its values are what the float parser returns on
  elements 3 to 15, none of them failing.
\<close>

definition decodedFrom :: "(uint32 \<Rightarrow> 'f) \<Rightarrow> string list \<Rightarrow> 'f Record \<Rightarrow> bool" where
  "decodedFrom toFloat g r =
     (length g = 16 \<and>
      parseDateTimeFromTwoHex (g ! 1) (g ! 2) = Inr (r\<lparr>floatValues := []\<rparr>) \<and>
      map (parseHexAsFloatLittleEndian toFloat) (drop 3 g) = map Inr (floatValues r))"

text \<open>
  Reading the formatted strings back: "YYYY/MM/DD" and "hh:mm:ss", fields at fixed
  positions, every field a decimal number. The program has no such reader; this one is
  the inverse the round-trip property of the specification speaks of.
\<close>

definition digitValue :: "char \<Rightarrow> int option" where
  "digitValue c =
     (if CHR ''0'' \<le> c \<and> c \<le> CHR ''9'' then Some (of_char c - of_char CHR ''0'') else None)"

fun readDecimal :: "int \<Rightarrow> string \<Rightarrow> int option" where
  "readDecimal acc [] = Some acc"
| "readDecimal acc (c # cs) =
     (case digitValue c of None \<Rightarrow> None | Some d \<Rightarrow> readDecimal (acc * 10 + d) cs)"

definition reparse3_spec :: "char \<Rightarrow> nat \<Rightarrow> string \<Rightarrow> (int \<times> int \<times> int) option" where
  "reparse3_spec sep w s =
     (if length s = w + 6 \<and> s ! w = sep \<and> s ! (w + 3) = sep then
        case (readDecimal 0 (take w s), readDecimal 0 (take 2 (drop (w + 1) s)),
              readDecimal 0 (drop (w + 4) s)) of
          (Some a, Some b, Some c) \<Rightarrow> Some (a, b, c)
        | _ \<Rightarrow> None
      else None)"

definition reparseDate_spec :: "string \<Rightarrow> (int \<times> int \<times> int) option" where
  "reparseDate_spec s = reparse3_spec CHR ''/'' 4 s"

definition reparseTime_spec :: "string \<Rightarrow> (int \<times> int \<times> int) option" where
  "reparseTime_spec s = reparse3_spec CHR '':'' 2 s"

text \<open>
  The texts the round-trip property speaks of: two strings of 8 characters whose digit
  pairs YY, MM, DD, hh (first string) and mm, ss (second string) are decimal and within
  the ranges of the data model. The last four characters of the second string are free.
\<close>

definition pairValue :: "string \<Rightarrow> nat \<Rightarrow> int option" where
  "pairValue s i =
     (case (digitValue (s ! i), digitValue (s ! (i + 1))) of
        (Some a, Some b) \<Rightarrow> Some (a * 10 + b)
      | _ \<Rightarrow> None)"

definition validTimestampText :: "string \<Rightarrow> string \<Rightarrow> bool" where
  "validTimestampText hex1 hex2 =
     (length hex1 = 8 \<and> length hex2 = 8 \<and>
      (case (pairValue hex1 0, pairValue hex1 2, pairValue hex1 4, pairValue hex1 6,
             pairValue hex2 0, pairValue hex2 2) of
         (Some YY, Some MM, Some DD, Some hh, Some mm, Some ss) \<Rightarrow>
           1 \<le> MM \<and> MM \<le> 12 \<and> 1 \<le> DD \<and> DD \<le> 31 \<and> hh \<le> 23 \<and> mm \<le> 59 \<and> ss \<le> 59
       | _ \<Rightarrow> False))"

subsection \<open>Sorting key\<close>

definition recKey :: "'f Record \<Rightarrow> int \<times> int \<times> int \<times> int \<times> int \<times> int" where
  "recKey r = (year r, month r, day r, hour r, minute r, second r)"

text \<open>The first record of every run of records with equal keys.\<close>

fun firstOfRuns :: "'f Record list \<Rightarrow> 'f Record list" where
  "firstOfRuns [] = []"
| "firstOfRuns [x] = [x]"
| "firstOfRuns (x # y # ys) =
     (if recKey x = recKey y then firstOfRuns (x # ys) else x # firstOfRuns (y # ys))"

subsection \<open>Sample data\<close>

text \<open>A record of 2025/01/10 13:30 with the given second and values.\<close>

definition sampleRow :: "int \<Rightarrow> 'f list \<Rightarrow> 'f Record" where
  "sampleRow s fv =
     \<lparr> year = 2025, month = 1, day = 10, hour = 13, minute = 30, second = s,
       dateStr = ''2025/01/10'', timeStr = ''13:30:'' @ setw2 s, floatValues = fv \<rparr>"

text \<open>
  A file of 192 + 132 bytes: the preamble, then one first block. Its word 0 is discarded;
  the first group has a marker word, the timestamp 25-01-10 13:30:45 and thirteen values,
  the first of which has the bytes 00 00 80 3F; the second group is all zeros (month 00).
\<close>

definition sampleFile :: "byte list" where
  "sampleFile =
     replicate 192 0 @
     [0, 0, 0, 0,
      0, 0, 0, 0,
      0x25, 0x01, 0x10, 0x13,
      0x30, 0x45, 0, 0,
      0, 0, 0x80, 0x3F,
      0, 0, 0, 0, 0, 0, 0, 0, 0, 0, 0, 0, 0, 0, 0, 0,
      0, 0, 0, 0, 0, 0, 0, 0, 0, 0, 0, 0, 0, 0, 0, 0,
      0, 0, 0, 0, 0, 0, 0, 0, 0, 0, 0, 0, 0, 0, 0, 0,
      0, 0, 0, 0, 0, 0, 0, 0, 0, 0, 0, 0, 0, 0, 0, 0,
      0, 0, 0, 0, 0, 0, 0, 0, 0, 0, 0, 0, 0, 0, 0, 0,
      0, 0, 0, 0, 0, 0, 0, 0, 0, 0, 0, 0, 0, 0, 0, 0,
      0, 0, 0, 0, 0, 0, 0, 0, 0, 0, 0, 0, 0, 0, 0, 0]"

text \<open>
  Groups of 16 hex words: one with the timestamp 25-01-10 13:30:45, the given text as its
  first value and twelve zero values; one of zeros only, whose month 00 is out of range.
\<close>

definition sampleGroup :: "string \<Rightarrow> string list" where
  "sampleGroup f0 = [''00000000'', ''25011013'', ''30450000'', f0] @ replicate 12 ''00000000''"

definition zeroGroup :: "string list" where
  "zeroGroup = replicate 16 ''00000000''"

text \<open>
  A second file of 192 + 132 bytes, with the two groups in the other order: the group of
  zeros first, the group with the timestamp and the values after it.
\<close>

definition sampleFileSkipFirst :: "byte list" where
  "sampleFileSkipFirst =
     replicate 192 0 @
     [0, 0, 0, 0,
      0, 0, 0, 0, 0, 0, 0, 0, 0, 0, 0, 0, 0, 0, 0, 0,
      0, 0, 0, 0, 0, 0, 0, 0, 0, 0, 0, 0, 0, 0, 0, 0,
      0, 0, 0, 0, 0, 0, 0, 0, 0, 0, 0, 0, 0, 0, 0, 0,
      0, 0, 0, 0, 0, 0, 0, 0, 0, 0, 0, 0, 0, 0, 0, 0,
      0, 0, 0, 0,
      0x25, 0x01, 0x10, 0x13,
      0x30, 0x45, 0, 0,
      0, 0, 0x80, 0x3F,
      0, 0, 0, 0, 0, 0, 0, 0, 0, 0, 0, 0, 0, 0, 0, 0,
      0, 0, 0, 0, 0, 0, 0, 0, 0, 0, 0, 0, 0, 0, 0, 0,
      0, 0, 0, 0, 0, 0, 0, 0, 0, 0, 0, 0, 0, 0, 0, 0]"

text \<open>A loop body that logs every group but the group of zeros, on which it throws.\<close>

definition throwOnZeroGroup :: "string list \<Rightarrow> string list list \<Rightarrow> error + string list list" where
  "throwOnZeroGroup g seen = (if g = zeroGroup then Inl InvalidHexChar else Inr (seen @ [g]))"


text \<open>The sixteen words of \<^const>\<open>sampleGroup\<close> with the value text "0000803F".\<close>

definition sampleWords :: "uint32 list" where
  "sampleWords = [0, 0x25011013, 0x30450000, 0x0000803F] @ replicate 12 0"

section \<open>Hexadecimal text: rendering and parsing\<close>

lemma nat_shift_or: "push_bit 4 (x::nat) OR d = x * 16 + d" if "d < 16"
proof -
  from that have td: "take_bit 4 d = d" by (simp add: take_bit_nat_eq_self)
  have "\<not> bit (push_bit 4 x) n \<or> \<not> bit d n" for n
  proof (cases "n < 4")
    case True then show ?thesis by (simp add: bit_push_bit_iff)
  next
    case False
    have "bit d n = bit (take_bit 4 d) n" by (simp only: td)
    with False show ?thesis by (simp add: bit_take_bit_iff)
  qed
  then have "push_bit 4 x + d = push_bit 4 x OR d" by (rule disjunctive_add)
  then show ?thesis by (simp add: push_bit_eq_mult)
qed

lemma word_shift_or:
  "push_bit 4 (of_nat x :: uint32) OR of_nat d = of_nat (x * 16 + d)" if "d < 16"
proof -
  have "push_bit 4 (of_nat x :: uint32) OR of_nat d = of_nat (push_bit 4 x OR d)"
    by (simp only: of_nat_or_eq of_nat_push_bit)
  with that show ?thesis by (simp only: nat_shift_or)
qed

lemma hexLoop_append:
  "hexLoop v (xs @ ys) = (case hexLoop v xs of Inl e \<Rightarrow> Inl e | Inr v' \<Rightarrow> hexLoop v' ys)"
  by (induction xs arbitrary: v) (simp_all add: Let_def)

lemma less_16_cases:
  assumes "(d::nat) < 16"
  shows "d \<in> {0,1,2,3,4,5,6,7,8,9,10,11,12,13,14,15}"
  using assms by (auto simp: less_Suc_eq numeral_eq_Suc)

lemma hexLoop_digit:
  assumes "d < 16"
  shows "hexLoop v [hexDigitUpper d] = Inr (push_bit 4 v OR of_nat d)"
  using less_16_cases [OF assms]
  by (auto simp add: hexDigitUpper_def Let_def)

lemma hexLoop_hexFixed:
  "hexLoop (of_nat a) (hexFixed k n) = Inr (of_nat (a * 16 ^ k + n mod 16 ^ k))"
proof (induction k arbitrary: n)
  case 0
  show ?case by simp
next
  case (Suc k)
  have dig: "n mod 16 < 16" by simp
  have ar: "(a * 16 ^ k + n div 16 mod 16 ^ k) * 16 + n mod 16 = a * 16 ^ Suc k + n mod 16 ^ Suc k"
    by (simp add: mod_mult2_eq algebra_simps)
  show ?case
    by (simp only: hexFixed.simps hexLoop_append Suc.IH sum.case hexLoop_digit [OF dig]
        word_shift_or [OF dig] ar)
qed

lemma length_hexFixed [simp]: "length (hexFixed k n) = k"
  by (induction k arbitrary: n) simp_all

lemma hexFixed_zero: "hexFixed k 0 = replicate k CHR ''0''"
  by (induction k) (simp_all add: hexDigitUpper_def replicate_append_same)

lemma length_hexUpper_le: "n < 16 ^ k \<Longrightarrow> 0 < k \<Longrightarrow> length (hexUpper n) \<le> k"
proof (induction n arbitrary: k rule: hexUpper.induct)
  case (1 n)
  show ?case
  proof (cases "n < 16")
    case True
    with "1.prems" show ?thesis by (simp add: hexUpper.simps)
  next
    case False
    from "1.prems" obtain j where k: "k = Suc j" by (cases k) auto
    with "1.prems" False have "n div 16 < 16 ^ j" "0 < j"
      by (auto simp: less_mult_imp_div_less intro: gr0I)
    with "1.IH" [OF False] have "length (hexUpper (n div 16)) \<le> j" by blast
    with False k show ?thesis by (subst hexUpper.simps) simp
  qed
qed

lemma padLeft_hexUpper:
  "n < 16 ^ k \<Longrightarrow> 0 < k \<Longrightarrow> padLeft k CHR ''0'' (hexUpper n) = hexFixed k n"
proof (induction n arbitrary: k rule: hexUpper.induct)
  case (1 n)
  from "1.prems" obtain j where k: "k = Suc j" by (cases k) auto
  show ?case
  proof (cases "n < 16")
    case True
    then show ?thesis
      by (simp add: k hexUpper.simps [of n] padLeft_def hexFixed_zero)
  next
    case False
    with "1.prems" k have b: "n div 16 < 16 ^ j" "0 < j"
      by (auto simp: less_mult_imp_div_less intro: gr0I)
    from "1.IH" [OF False b] have ih: "padLeft j CHR ''0'' (hexUpper (n div 16)) = hexFixed j (n div 16)" .
    from length_hexUpper_le [OF b] have "length (hexUpper (n div 16)) \<le> j" .
    with False ih show ?thesis
      by (simp add: k hexUpper.simps [of n] padLeft_def Suc_diff_le)
  qed
qed

lemma snprintf_08X_hexFixed: "snprintf_08X v = hexFixed 8 (unat v)"
proof -
  have "unat v < 2 ^ 32" using unsigned_less [of v] by simp
  then have "unat v < 16 ^ 8" by simp
  then show ?thesis by (simp add: snprintf_08X_def padLeft_hexUpper)
qed

lemma length_snprintf_08X [simp]: "length (snprintf_08X v) = 8"
  by (simp add: snprintf_08X_hexFixed)

lemma hexToUint32_snprintf_08X: "hexToUint32 (snprintf_08X v) = Inr v"
proof -
  have "unat v < 2 ^ 32" using unsigned_less [of v] by simp
  then have m: "unat v mod 16 ^ 8 = unat v" by simp
  have "hexLoop (of_nat 0) (hexFixed 8 (unat v)) = Inr (of_nat (0 * 16 ^ 8 + unat v mod 16 ^ 8))"
    by (rule hexLoop_hexFixed)
  with m have "hexLoop 0 (hexFixed 8 (unat v)) = Inr v" by simp
  then show ?thesis by (simp add: hexToUint32_def snprintf_08X_hexFixed)
qed

lemma range_48_57: "{48 .. 57 :: nat} = {48, 49, 50, 51, 52, 53, 54, 55, 56, 57}"
  by auto presburger

lemma range_65_70: "{65 .. 70 :: nat} = {65, 66, 67, 68, 69, 70}"
  by auto

lemma range_97_102: "{97 .. 102 :: nat} = {97, 98, 99, 100, 101, 102}"
  by auto

lemma of_char_image_mem: "(of_char c :: nat) \<in> of_char ` S \<Longrightarrow> c \<in> S"
  by auto

lemma digit_chars:
  assumes "CHR ''0'' \<le> c" "c \<le> CHR ''9''"
  shows "c \<in> set ''0123456789''"
proof -
  from assms have "(of_char c :: nat) \<in> {48 .. 57}" by (simp add: less_eq_char_def)
  then show ?thesis unfolding range_48_57 by (intro of_char_image_mem) simp
qed

lemma upper_hex_chars:
  assumes "CHR ''A'' \<le> c" "c \<le> CHR ''F''"
  shows "c \<in> set ''ABCDEF''"
proof -
  from assms have "(of_char c :: nat) \<in> {65 .. 70}" by (simp add: less_eq_char_def)
  then show ?thesis unfolding range_65_70 by (intro of_char_image_mem) simp
qed

lemma lower_hex_chars:
  assumes "CHR ''a'' \<le> c" "c \<le> CHR ''f''"
  shows "c \<in> set ''abcdef''"
proof -
  from assms have "(of_char c :: nat) \<in> {97 .. 102}" by (simp add: less_eq_char_def)
  then show ?thesis unfolding range_97_102 by (intro of_char_image_mem) simp
qed

lemma char_of_eqI: "(of_char c :: nat) = n \<Longrightarrow> char_of n = c"
  by auto

lemma toupperC_hex_letters:
  "toupperC CHR ''a'' = CHR ''A''" "toupperC CHR ''b'' = CHR ''B''"
  "toupperC CHR ''c'' = CHR ''C''" "toupperC CHR ''d'' = CHR ''D''"
  "toupperC CHR ''e'' = CHR ''E''" "toupperC CHR ''f'' = CHR ''F''"
  by (simp_all add: toupperC_def char_of_eqI)

lemma toupperC_not_lower: "c < CHR ''a'' \<Longrightarrow> toupperC c = c"
  by (auto simp add: toupperC_def)

lemma hexLoop_single:
  assumes "hexLoop v [c] = Inr w"
  shows "\<exists>d<16. w = push_bit 4 v OR of_nat d \<and> hexDigitUpper d = toupperC c"
proof -
  consider (dec) "CHR ''0'' \<le> c \<and> c \<le> CHR ''9''"
    | (up) "CHR ''A'' \<le> c \<and> c \<le> CHR ''F''"
    | (lo) "CHR ''a'' \<le> c \<and> c \<le> CHR ''f''"
    | (bad) "\<not> (CHR ''0'' \<le> c \<and> c \<le> CHR ''9'')" "\<not> (CHR ''A'' \<le> c \<and> c \<le> CHR ''F'')"
        "\<not> (CHR ''a'' \<le> c \<and> c \<le> CHR ''f'')"
    by blast
  then show ?thesis
  proof cases
    case dec
    then have "c \<in> set ''0123456789''" by (blast intro: digit_chars)
    with assms show ?thesis
      by (auto simp add: Let_def hexDigitUpper_def toupperC_not_lower intro!: exI [of _ "of_char c - 48"])
  next
    case up
    then have "c \<in> set ''ABCDEF''" by (blast intro: upper_hex_chars)
    with assms show ?thesis
      by (auto simp add: Let_def hexDigitUpper_def toupperC_not_lower intro!: exI [of _ "of_char c - 55"])
  next
    case lo
    then have "c \<in> set ''abcdef''" by (blast intro: lower_hex_chars)
    with assms show ?thesis
      by (auto simp add: Let_def hexDigitUpper_def toupperC_hex_letters intro!: exI [of _ "of_char c - 87"])
  next
    case bad
    with assms show ?thesis by (simp add: Let_def)
  qed
qed


lemma hexLoop_unat:
  "hexLoop 0 H = Inr w \<Longrightarrow> length H \<le> 8 \<Longrightarrow>
     unat w < 16 ^ length H \<and> hexFixed (length H) (unat w) = map toupperC H"
proof (induction H arbitrary: w rule: rev_induct)
  case Nil
  then show ?case by simp
next
  case (snoc c H)
  from snoc.prems(1) obtain w' where w': "hexLoop 0 H = Inr w'" and last: "hexLoop w' [c] = Inr w"
    by (auto simp add: hexLoop_append split: sum.splits)
  from snoc.IH [OF w'] snoc.prems(2)
  have ih: "unat w' < 16 ^ length H" "hexFixed (length H) (unat w') = map toupperC H"
    by simp_all
  from hexLoop_single [OF last] obtain d where d: "d < 16"
    and w: "w = push_bit 4 w' OR of_nat d" and up: "hexDigitUpper d = toupperC c"
    by blast
  have "w = of_nat (unat w' * 16 + d)"
    using word_shift_or [OF d, of "unat w'"] w by simp
  then have uw: "unat w = (unat w' * 16 + d) mod 2 ^ 32"
    by (simp only: unat_of_nat) simp
  from ih(1) d have b: "unat w' * 16 + d < 16 ^ Suc (length H)" by simp
  also from snoc.prems(2) have "(16::nat) ^ Suc (length H) \<le> 16 ^ 8"
    by (intro power_increasing) simp_all
  finally have "unat w' * 16 + d < 2 ^ 32" by simp
  with uw have eq: "unat w = unat w' * 16 + d" by simp
  with b d ih(2) up show ?case by simp
qed

lemma snprintf_08X_hexToUint32:
  assumes "length H = 8" "hexToUint32 H = Inr w"
  shows "snprintf_08X w = map toupperC H"
proof -
  from assms have "hexLoop 0 H = Inr w" by (simp add: hexToUint32_def)
  from hexLoop_unat [OF this] assms(1) show ?thesis
    by (simp add: snprintf_08X_hexFixed)
qed

section \<open>The loops of parseBinFile\<close>

lemma chunks_short [simp]: "length xs < n \<Longrightarrow> chunks n xs = []"
  by (simp add: chunks.simps)

lemma chunks_step: "0 < n \<Longrightarrow> n \<le> length xs \<Longrightarrow> chunks n xs = take n xs # chunks n (drop n xs)"
  by (subst chunks.simps) simp

lemma chunks_append:
  "0 < n \<Longrightarrow> length xs = k * n \<Longrightarrow> chunks n (xs @ ys) = chunks n xs @ chunks n ys"
proof (induction k arbitrary: xs)
  case 0
  then show ?case by (simp add: chunks.simps [of n "[]"])
next
  case (Suc k)
  then have len: "n \<le> length xs" by simp
  from Suc.prems have "length (drop n xs) = k * n" by simp
  with Suc.IH Suc.prems(1) have ih: "chunks n (drop n xs @ ys) = chunks n (drop n xs) @ chunks n ys"
    by blast
  from len Suc.prems(1) have "chunks n (xs @ ys) = take n xs # chunks n (drop n xs @ ys)"
    by (subst chunks_step) simp_all
  with ih len Suc.prems(1) show ?case by (simp add: chunks_step [of n xs])
qed

lemma chunks_eq_map:
  "0 < n \<Longrightarrow> chunks n xs = map (\<lambda>i. take n (drop (i * n) xs)) [0..<length xs div n]"
proof (induction n xs rule: chunks.induct)
  case (1 n xs)
  show ?case
  proof (cases "length xs < n")
    case True
    then show ?thesis by simp
  next
    case False
    with "1.prems" have ih:
      "chunks n (drop n xs) = map (\<lambda>i. take n (drop (i * n) (drop n xs))) [0..<length (drop n xs) div n]"
      using "1.IH" by simp
    from False "1.prems" have d: "length xs div n = Suc ((length xs - n) div n)"
      by (simp add: le_div_geq)
    have m: "map (\<lambda>i. take n (drop (i * n) xs)) [0..<Suc k]
          = take n xs # map (\<lambda>i. take n (drop (i * n) (drop n xs))) [0..<k]" for k
      by (simp add: upt_conv_Cons map_Suc_upt [symmetric] add.commute del: upt_Suc)
    from False "1.prems" show ?thesis
      by (simp add: chunks_step ih d m del: upt_Suc)
  qed
qed

lemma forEachGroup_append:
  "forEachGroup body (gs @ hs) acc =
     (case forEachGroup body gs acc of Inl e \<Rightarrow> Inl e | Inr acc' \<Rightarrow> forEachGroup body hs acc')"
  by (induction gs arbitrary: acc) (simp_all split: sum.splits)

lemma groupLoop_forEachGroup:
  "groupLoop body hexVals i acc = forEachGroup body (chunks 16 (drop i hexVals)) acc"
proof (induction body hexVals i acc rule: groupLoop.induct)
  case (1 body hexVals i acc)
  show ?case
  proof (cases "i + 16 \<le> length hexVals")
    case True
    then have c: "chunks 16 (drop i hexVals)
        = take 16 (drop i hexVals) # chunks 16 (drop (i + 16) hexVals)"
      by (simp add: chunks_step add.commute)
    show ?thesis
    proof (cases "body (take 16 (drop i hexVals)) acc")
      case (Inl e)
      with True c show ?thesis by (subst groupLoop.simps) simp
    next
      case (Inr acc')
      with True c "1.IH" [OF True Inr] show ?thesis by (subst groupLoop.simps) simp
    qed
  next
    case False
    then show ?thesis by (subst groupLoop.simps) simp
  qed
qed


lemma beWord_take_drop:
  "beWord (take 4 (drop k buffer)) 0 = beWord buffer k" if "k + 4 \<le> length buffer"
  using that by (simp add: beWord_def)

lemma blockWords_spec_eq:
  assumes "length block = 4 * m"
  shows "blockWords_spec block = map (\<lambda>i. beWord block (i * 4)) [0..<m]"
proof -
  have "beWord (take 4 (drop (i * 4) block)) 0 = beWord block (i * 4)" if "i < m" for i
    using that assms by (intro beWord_take_drop) simp
  with assms show ?thesis
    by (simp add: blockWords_spec_def chunks_eq_map)
qed

lemma blockHexVals_later:
  "length buffer = 128 \<Longrightarrow> blockHexVals False buffer = map snprintf_08X (blockWords_spec buffer)"
  by (simp add: blockHexVals_def blockWords_spec_eq [of buffer 32])

lemma blockHexVals_first:
  "length buffer = 132 \<Longrightarrow> blockHexVals True buffer = map snprintf_08X (drop 1 (blockWords_spec buffer))"
  by (simp add: blockHexVals_def blockWords_spec_eq [of buffer 33])

lemma length_blockHexVals [simp]: "length (blockHexVals firstRead buffer) = 32"
  by (simp add: blockHexVals_def)

text \<open>The hex words of the blocks that follow the first one.\<close>

lemma readLoop_later:
  "readLoop body fp False acc =
     forEachGroup body
       (chunks 16 (concat (map (\<lambda>block. map snprintf_08X (blockWords_spec block))
                               (chunks 128 (drop (pos fp) (content fp)))))) acc"
proof (induction "length (content fp) - pos fp" arbitrary: fp acc rule: less_induct)
  case less
  let ?rest = "drop (pos fp) (content fp)"
  let ?hex = "\<lambda>block. map snprintf_08X (blockWords_spec block)"
  show ?case
  proof (cases "length ?rest < 128")
    case True
    then show ?thesis
      by (subst readLoop.simps) (simp add: fread_def Let_def chunks.simps [of 16 "[]"])
  next
    case False
    then have len: "length (take 128 ?rest) = 128" by simp
    let ?fp' = "fp\<lparr>pos := pos fp + 128\<rparr>"
    have smaller: "length (content ?fp') - pos ?fp' < length (content fp) - pos fp"
      using False by simp
    have ch: "chunks 128 ?rest = take 128 ?rest # chunks 128 (drop 128 ?rest)"
      using False by (simp add: chunks_step)
    have l32: "length (?hex (take 128 ?rest)) = 2 * 16"
      using blockHexVals_later [OF len, symmetric] by (simp del: length_map)
    have split: "chunks 16 (concat (map ?hex (chunks 128 ?rest)))
        = chunks 16 (?hex (take 128 ?rest)) @ chunks 16 (concat (map ?hex (chunks 128 (drop 128 ?rest))))"
      unfolding ch by (simp only: list.map concat.simps chunks_append [OF _ l32] zero_less_numeral)
    have fr: "fread 128 fp = (take 128 ?rest, ?fp')"
      using False by (simp add: fread_def Let_def min_absorb2)
    have step: "readLoop body fp False acc =
        (case groupLoop body (blockHexVals False (take 128 ?rest)) 0 acc of
           Inl e \<Rightarrow> Inl e | Inr acc' \<Rightarrow> readLoop body ?fp' False acc')"
      by (subst readLoop.simps) (simp only: fr fst_conv snd_conv Let_def if_False len less_irrefl)
    have ih: "readLoop body ?fp' False acc' =
        forEachGroup body (chunks 16 (concat (map ?hex (chunks 128 (drop 128 ?rest))))) acc'" for acc'
      using less [OF smaller, of acc'] by (simp add: add.commute)
    show ?thesis
      unfolding step split forEachGroup_append
      by (simp add: groupLoop_forEachGroup blockHexVals_later [OF len] ih split: sum.splits)
  qed
qed

lemma readLoop_first:
  "readLoop body \<lparr> content = bytes, pos = 192 \<rparr> True acc =
     forEachGroup body (chunks 16 (keptHexWords_spec bytes)) acc"
proof (cases "length (drop 192 bytes) < 132")
  case True
  then show ?thesis
    by (subst readLoop.simps)
      (simp add: fread_def Let_def keptHexWords_spec_def chunks.simps [of 16 "[]"])
next
  case False
  let ?rest = "drop 192 bytes"
  let ?hex = "\<lambda>block. map snprintf_08X (blockWords_spec block)"
  let ?fp' = "\<lparr> content = bytes, pos = 324 \<rparr>"
  from False have len: "length (take 132 ?rest) = 132" by simp
  have l32: "length (map snprintf_08X (drop 1 (blockWords_spec (take 132 ?rest)))) = 2 * 16"
    using blockHexVals_first [OF len, symmetric] by (simp del: length_map)
  have fr: "fread 132 \<lparr> content = bytes, pos = 192 \<rparr> = (take 132 ?rest, ?fp')"
    using False by (simp add: fread_def Let_def min_absorb2)
  have step: "readLoop body \<lparr> content = bytes, pos = 192 \<rparr> True acc =
        (case groupLoop body (blockHexVals True (take 132 ?rest)) 0 acc of
           Inl e \<Rightarrow> Inl e | Inr acc' \<Rightarrow> readLoop body ?fp' False acc')"
    by (subst readLoop.simps) (simp only: fr fst_conv snd_conv Let_def if_True if_False len less_irrefl)
  have kept: "keptHexWords_spec bytes =
      map snprintf_08X (drop 1 (blockWords_spec (take 132 ?rest))) @
      concat (map ?hex (chunks 128 (drop 132 ?rest)))"
    using False by (simp add: keptHexWords_spec_def Let_def)
  have later: "readLoop body ?fp' False acc' =
      forEachGroup body (chunks 16 (concat (map ?hex (chunks 128 (drop 324 bytes))))) acc'" for acc'
    using readLoop_later [of body ?fp' acc'] by simp
  show ?thesis
    unfolding step kept chunks_append [OF zero_less_numeral l32] forEachGroup_append
    by (simp add: groupLoop_forEachGroup blockHexVals_first [OF len] later split: sum.splits)
qed

lemma fseek_set_C0:
  "fseek_set \<lparr> content = bytes, pos = 0 \<rparr> 0xC0 = (0, \<lparr> content = bytes, pos = 192 \<rparr>)"
  by (simp add: fseek_set_def)

lemma parseBinFileWith_forEachGroup:
  "parseBinFileWith body (Some bytes) =
     forEachGroup body (groups16_spec (keptHexWords_spec bytes)) []"
  by (simp add: parseBinFileWith_def fseek_set_C0 readLoop_first groups16_spec_def)

lemma parseBinFile_forEachGroup:
  "parseBinFile toFloat (Some bytes) =
     forEachGroup (processGroup toFloat) (groups16_spec (keptHexWords_spec bytes)) []"
  by (simp add: parseBinFile_def parseBinFileWith_forEachGroup)

lemma forEachGroup_recordGroup: "forEachGroup recordGroup gs seen = Inr (seen @ gs)"
  by (induction gs arbitrary: seen) (simp_all add: recordGroup_def)

lemma groupsVisited_eq: "groupsVisited bytes = Inr (groups16_spec (keptHexWords_spec bytes))"
  by (simp add: groupsVisited_def fseek_set_C0 readLoop_first groups16_spec_def
      forEachGroup_recordGroup)


lemma parseHex_rendered:
  "parseHexAsFloatLittleEndian toFloat (snprintf_08X w) = Inr (toFloat (swapBigEndianToHost w))"
  by (simp add: parseHexAsFloatLittleEndian_def hexToUint32_snprintf_08X)

lemma floatLoop_rendered:
  "floatLoop toFloat (map snprintf_08X ws) fvals
     = Inr (fvals @ map (\<lambda>w. toFloat (swapBigEndianToHost w)) ws)"
  by (induction ws arbitrary: fvals) (simp_all add: parseHex_rendered)

lemma processGroup_rendered:
  "\<exists>rows'. processGroup toFloat (map snprintf_08X ws) rows = Inr rows'"
  by (simp add: processGroup_def Let_def floatLoop_rendered
      map_tl [symmetric] drop_map split: sum.splits)

lemma chunks_map: "chunks n (map f xs) = map (map f) (chunks n xs)"
proof (induction n xs rule: chunks.induct)
  case (1 n xs)
  show ?case
  proof (cases "n = 0 \<or> length xs < n")
    case True
    then show ?thesis by (auto simp add: chunks.simps [of n])
  next
    case False
    with "1.IH" have "chunks n (map f (drop n xs)) = map (map f) (chunks n (drop n xs))"
      by (simp add: drop_map)
    with False show ?thesis
      by (simp add: chunks.simps [of n xs] chunks.simps [of n "map f xs"] take_map drop_map)
  qed
qed

lemma forEachGroup_rendered:
  "\<exists>rows'. forEachGroup (processGroup toFloat) (map (map snprintf_08X) wss) rows = Inr rows'"
proof (induction wss arbitrary: rows)
  case Nil
  show ?case by simp
next
  case (Cons ws wss)
  from processGroup_rendered obtain rows1
    where "processGroup toFloat (map snprintf_08X ws) rows = Inr rows1" by blast
  with Cons.IH [of rows1] show ?case by simp
qed

text \<open>The kept words themselves, before rendering.\<close>

lemma keptHexWords_rendered: "\<exists>ws. keptHexWords_spec bytes = map snprintf_08X ws"
proof -
  let ?body = "drop 192 bytes"
  let ?ws = "if length ?body < 132 then []
             else drop 1 (blockWords_spec (take 132 ?body)) @
                  concat (map blockWords_spec (chunks 128 (drop 132 ?body)))"
  have "keptHexWords_spec bytes = map snprintf_08X ?ws"
    by (simp add: keptHexWords_spec_def Let_def map_concat comp_def)
  then show ?thesis ..
qed

lemma parseBinFile_returns: "\<exists>rows. parseBinFile toFloat (Some bytes) = Inr rows"
proof -
  from keptHexWords_rendered obtain ws where "keptHexWords_spec bytes = map snprintf_08X ws" ..
  then show ?thesis
    by (simp add: parseBinFile_forEachGroup groups16_spec_def chunks_map forEachGroup_rendered)
qed

lemma keptHexWords_short: "length bytes < 192 + 132 \<Longrightarrow> keptHexWords_spec bytes = []"
  by (simp add: keptHexWords_spec_def Let_def)

section \<open>Sorting and removal of duplicates\<close>

lemma recLess_iff: "recLess a b \<longleftrightarrow> recKey a < recKey b"
  by (auto simp add: recLess_def recKey_def)

lemma dedup_condition:
  "(year r \<noteq> year l \<or> month r \<noteq> month l \<or> day r \<noteq> day l \<or>
    hour r \<noteq> hour l \<or> minute r \<noteq> minute l \<or> second r \<noteq> second l)
     \<longleftrightarrow> recKey r \<noteq> recKey l"
  by (auto simp add: recKey_def)

lemma dedupLoop_Cons:
  "dedupLoop (r # rs) u =
     (if u = [] \<or> recKey r \<noteq> recKey (last u) then dedupLoop rs (u @ [r]) else dedupLoop rs u)"
  by (simp only: dedupLoop.simps dedup_condition)

lemma dedupLoop_snoc: "dedupLoop rs (u @ [x]) = u @ firstOfRuns (x # rs)"
proof (induction rs arbitrary: u x)
  case Nil
  show ?case by simp
next
  case (Cons r rs)
  show ?case
  proof (cases "recKey r = recKey x")
    case True
    with Cons.IH [of u x] show ?thesis
      by (simp add: dedupLoop_Cons del: dedupLoop.simps)
  next
    case False
    with Cons.IH [of "u @ [x]" r] show ?thesis
      by (simp add: dedupLoop_Cons del: dedupLoop.simps)
  qed
qed

lemma dedupLoop_firstOfRuns: "dedupLoop rs [] = firstOfRuns rs"
proof (cases rs)
  case Nil
  then show ?thesis by simp
next
  case (Cons r rs')
  with dedupLoop_snoc [of rs' "[]" r] show ?thesis by simp
qed

lemma set_firstOfRuns: "set (firstOfRuns xs) \<subseteq> set xs"
  by (induction xs rule: firstOfRuns.induct) auto

lemma keys_firstOfRuns: "recKey ` set (firstOfRuns xs) = recKey ` set xs"
  by (induction xs rule: firstOfRuns.induct) auto

lemma firstOfRuns_increasing:
  "sorted (map recKey xs) \<Longrightarrow> sorted_wrt (\<lambda>a b. recKey a < recKey b) (firstOfRuns xs)"
proof (induction xs rule: firstOfRuns.induct)
  case 1
  show ?case by simp
next
  case (2 x)
  show ?case by simp
next
  case (3 x y ys)
  show ?case
  proof (cases "recKey x = recKey y")
    case True
    with 3 show ?thesis by simp
  next
    case False
    with "3.prems" have lt: "recKey x < recKey y" by (simp add: less_le)
    have "recKey x < recKey z" if "z \<in> set (firstOfRuns (y # ys))" for z
    proof -
      from that set_firstOfRuns have "z \<in> set (y # ys)" by blast
      with "3.prems" have "recKey y \<le> recKey z" by auto
      with lt show ?thesis by simp
    qed
    with False 3 show ?thesis by simp
  qed
qed

lemma firstOfRuns_first:
  "sorted (map recKey xs) \<Longrightarrow> r \<in> set (firstOfRuns xs) \<Longrightarrow>
     find (\<lambda>x. recKey x = recKey r) xs = Some r"
proof (induction xs rule: firstOfRuns.induct)
  case 1
  then show ?case by simp
next
  case (2 x)
  then show ?case by simp
next
  case (3 x y ys)
  show ?case
  proof (cases "recKey x = recKey y")
    case True
    from "3.prems"(1) have "sorted (map recKey (x # ys))" by simp
    with True 3 have "find (\<lambda>z. recKey z = recKey r) (x # ys) = Some r" by simp
    with True show ?thesis by (simp split: if_splits)
  next
    case False
    with "3.prems" have lt: "recKey x < recKey y" by (simp add: less_le)
    show ?thesis
    proof (cases "r = x")
      case True
      then show ?thesis by simp
    next
      case neq: False
      with False "3.prems" have mem: "r \<in> set (firstOfRuns (y # ys))" by simp
      with set_firstOfRuns have "r \<in> set (y # ys)" by blast
      with "3.prems" have "recKey y \<le> recKey r" by auto
      with lt have "recKey x \<noteq> recKey r" by simp
      moreover from False mem "3.IH"(2) "3.prems"(1)
      have "find (\<lambda>z. recKey z = recKey r) (y # ys) = Some r" by simp
      ultimately show ?thesis by simp
    qed
  qed
qed

lemma stdSortResult_sorted:
  "stdSortResult rowsIn rows \<Longrightarrow> sorted (map recKey rows) \<and> set rows = set rowsIn"
proof -
  assume a: "stdSortResult rowsIn rows"
  then have "sorted_wrt (\<lambda>a b. recKey a \<le> recKey b) rows"
    by (simp add: stdSortResult_def recLess_iff not_less)
  moreover from a have "set rows = set rowsIn"
    unfolding stdSortResult_def by (metis set_mset_mset)
  ultimately show ?thesis by (simp add: sorted_map)
qed

lemma increasing_sorted_distinct:
  "sorted_wrt (\<lambda>a b. recKey a < recKey b) xs \<Longrightarrow> sorted (map recKey xs) \<and> distinct (map recKey xs)"
proof -
  assume "sorted_wrt (\<lambda>a b. recKey a < recKey b) xs"
  then have "sorted_wrt (<) (map recKey xs)" by (simp add: sorted_wrt_map)
  then show ?thesis using strict_sorted_iff by blast
qed

lemma recKey_sampleRow: "recKey (sampleRow s fv) = (2025, 1, 10, 13, 30, s)"
  by (simp add: sampleRow_def recKey_def)

lemma sampleRow_eq_iff: "sampleRow s fv = sampleRow s' fv' \<longleftrightarrow> s = s' \<and> fv = fv'"
  by (auto simp add: sampleRow_def setw2_def)



lemma stdSortResult_sort_key: "stdSortResult rows (sort_key recKey rows)"
proof -
  have "sorted (map recKey (sort_key recKey rows))" by simp
  then have "sorted_wrt (\<lambda>a b. recKey a \<le> recKey b) (sort_key recKey rows)"
    by (simp only: sorted_map)
  then show ?thesis by (simp add: stdSortResult_def recLess_iff not_less)
qed

section \<open>Timestamps\<close>

lemma decDigits_lt10: "n < 10 \<Longrightarrow> decDigits n = [decDigit n]"
  by (simp add: decDigits.simps)

lemma decDigits_ge10: "10 \<le> n \<Longrightarrow> decDigits n = decDigits (n div 10) @ [decDigit (n mod 10)]"
  by (subst decDigits.simps) simp

lemma decDigit_0: "decDigit 0 = CHR ''0''"
  by (simp add: decDigit_def)

lemma setw2_twoDigits: "0 \<le> n \<Longrightarrow> n \<le> 99 \<Longrightarrow> setw2 n = twoDigits n"
proof -
  assume a: "0 \<le> n" "n \<le> 99"
  show ?thesis
  proof (cases "nat n < 10")
    case True
    with a show ?thesis
      by (simp add: setw2_def showInt_def padLeft_def twoDigits_def decDigits_lt10 decDigit_0)
  next
    case False
    with a have "nat n div 10 < 10" by simp
    with False a show ?thesis
      by (simp add: setw2_def showInt_def padLeft_def twoDigits_def decDigits_ge10 decDigits_lt10)
  qed
qed

lemma showInt_fourDigits: "1000 \<le> n \<Longrightarrow> n \<le> 9999 \<Longrightarrow> showInt n = fourDigits n"
proof -
  assume a: "1000 \<le> n" "n \<le> 9999"
  let ?m = "nat n"
  from a have b: "10 \<le> ?m" "10 \<le> ?m div 10" "10 \<le> ?m div 10 div 10" "?m div 10 div 10 div 10 < 10"
    by simp_all
  have d: "?m div 10 div 10 div 10 = ?m div 1000" "?m div 10 div 10 = ?m div 100"
    "?m div 100 div 10 = ?m div 1000"
    by (simp_all add: div_mult2_eq [symmetric])
  from a have "showInt n = decDigits ?m" by (simp add: showInt_def)
  also have "\<dots> = [decDigit (?m div 10 div 10 div 10), decDigit (?m div 10 div 10 mod 10),
      decDigit (?m div 10 mod 10), decDigit (?m mod 10)]"
    by (simp add: decDigits_ge10 [OF b(1)] decDigits_ge10 [OF b(2)] decDigits_ge10 [OF b(3)]
        decDigits_lt10 [OF b(4)])
  finally show ?thesis by (simp add: fourDigits_def d)
qed

lemma of_char_int: "(of_char c :: int) = int (of_char c)"
  by (simp only: of_nat_of_char)

lemma decToInt_range: "decToInt s p = Inr v \<Longrightarrow> 0 \<le> v \<and> v \<le> 99"
  by (auto simp add: decToInt_def Let_def less_char_def not_less of_char_int
      simp del: of_nat_of_char split: if_splits)

lemma bindE_Inr: "bindE m k = Inr y \<longleftrightarrow> (\<exists>x. m = Inr x \<and> k x = Inr y)"
  by (cases m) (simp_all add: bindE_def)

lemma parseDateTime_fields:
  assumes "parseDateTimeFromTwoHex hex1 hex2 = Inr r"
  shows "8 \<le> length hex1 \<and> 8 \<le> length hex2 \<and>
         decToInt hex1 0 = Inr (year r - 2000) \<and> decToInt hex1 2 = Inr (month r) \<and>
         decToInt hex1 4 = Inr (day r) \<and> decToInt hex1 6 = Inr (hour r) \<and>
         decToInt hex2 0 = Inr (minute r) \<and> decToInt hex2 2 = Inr (second r) \<and>
         1 \<le> month r \<and> month r \<le> 12 \<and> 1 \<le> day r \<and> day r \<le> 31 \<and> hour r \<le> 23 \<and>
         minute r \<le> 59 \<and> second r \<le> 59 \<and>
         dateStr r = showInt (year r) @ ''/'' @ setw2 (month r) @ ''/'' @ setw2 (day r) \<and>
         timeStr r = setw2 (hour r) @ '':'' @ setw2 (minute r) @ '':'' @ setw2 (second r) \<and>
         floatValues r = []"
  using assms
  by (auto simp add: parseDateTimeFromTwoHex_def bindE_Inr Let_def split: if_splits)

lemma parseDateTime_invariant:
  assumes "parseDateTimeFromTwoHex hex1 hex2 = Inr r"
  shows "2000 \<le> year r \<and> year r \<le> 2099 \<and>
         1 \<le> month r \<and> month r \<le> 12 \<and> 1 \<le> day r \<and> day r \<le> 31 \<and>
         0 \<le> hour r \<and> hour r \<le> 23 \<and> 0 \<le> minute r \<and> minute r \<le> 59 \<and>
         0 \<le> second r \<and> second r \<le> 59 \<and>
         dateStr r = fourDigits (year r) @ ''/'' @ twoDigits (month r) @ ''/'' @ twoDigits (day r) \<and>
         timeStr r = twoDigits (hour r) @ '':'' @ twoDigits (minute r) @ '':'' @ twoDigits (second r) \<and>
         floatValues r = []"
proof -
  note f = parseDateTime_fields [OF assms]
  from f decToInt_range [of hex1 0 "year r - 2000"] have y: "2000 \<le> year r" "year r \<le> 2099"
    by simp_all
  from f decToInt_range [of hex1 6 "hour r"] have h: "0 \<le> hour r" by simp
  from f decToInt_range [of hex2 0 "minute r"] have m: "0 \<le> minute r" by simp
  from f decToInt_range [of hex2 2 "second r"] have s: "0 \<le> second r" by simp
  from f y h m s show ?thesis
    by (simp add: setw2_twoDigits showInt_fourDigits)
qed

lemma less_10_cases: "(d::nat) < 10 \<Longrightarrow> d \<in> {0, 1, 2, 3, 4, 5, 6, 7, 8, 9}"
  by (auto simp: less_Suc_eq numeral_eq_Suc)

lemma digitValue_decDigit: "d < 10 \<Longrightarrow> digitValue (decDigit d) = Some (int d)"
  by (drule less_10_cases) (auto simp add: digitValue_def decDigit_def)

lemma readDecimal_twoDigits:
  assumes "0 \<le> n" "n \<le> 99"
  shows "readDecimal 0 (twoDigits n) = Some n"
proof -
  from assms have "nat n div 10 < 10" "nat n mod 10 < 10" by simp_all
  moreover have "nat n div 10 * 10 + nat n mod 10 = nat n" by simp
  then have "int (nat n div 10 * 10 + nat n mod 10) = n" using assms by simp
  then have "int (nat n div 10) * 10 + int (nat n mod 10) = n"
    by (simp only: of_nat_add of_nat_mult of_nat_numeral)
  ultimately show ?thesis by (simp add: twoDigits_def digitValue_decDigit)
qed

lemma readDecimal_fourDigits:
  assumes "0 \<le> n" "n \<le> 9999"
  shows "readDecimal 0 (fourDigits n) = Some n"
proof -
  let ?m = "nat n"
  from assms have b: "?m div 1000 < 10" "?m div 100 mod 10 < 10" "?m div 10 mod 10 < 10"
    "?m mod 10 < 10" by simp_all
  have s1: "?m div 10 * 10 + ?m mod 10 = ?m" by simp
  have s2: "?m div 100 * 10 + ?m div 10 mod 10 = ?m div 10"
    using div_mult_mod_eq [of "?m div 10" 10] by (simp add: div_mult2_eq [symmetric])
  have s3: "?m div 1000 * 10 + ?m div 100 mod 10 = ?m div 100"
    using div_mult_mod_eq [of "?m div 100" 10] by (simp add: div_mult2_eq [symmetric])
  have "((?m div 1000 * 10 + ?m div 100 mod 10) * 10 + ?m div 10 mod 10) * 10 + ?m mod 10 = ?m"
    by (simp only: s3 s2 s1)
  then have "int (((?m div 1000 * 10 + ?m div 100 mod 10) * 10 + ?m div 10 mod 10) * 10 + ?m mod 10) = n"
    using assms by simp
  then have "((int (?m div 1000) * 10 + int (?m div 100 mod 10)) * 10 + int (?m div 10 mod 10)) * 10
      + int (?m mod 10) = n"
    by (simp only: of_nat_add of_nat_mult of_nat_numeral)
  with b show ?thesis by (simp add: fourDigits_def digitValue_decDigit)
qed

lemma reparseDate_formatted:
  assumes "0 \<le> y" "y \<le> 9999" "0 \<le> m" "m \<le> 99" "0 \<le> d" "d \<le> 99"
  shows "reparseDate_spec (fourDigits y @ ''/'' @ twoDigits m @ ''/'' @ twoDigits d) = Some (y, m, d)"
proof -
  obtain a b c e where y: "fourDigits y = [a, b, c, e]" by (simp add: fourDigits_def)
  obtain f g where m: "twoDigits m = [f, g]" by (simp add: twoDigits_def)
  obtain h i where d: "twoDigits d = [h, i]" by (simp add: twoDigits_def)
  have "reparseDate_spec ([a, b, c, e] @ ''/'' @ [f, g] @ ''/'' @ [h, i]) =
      (case (readDecimal 0 [a, b, c, e], readDecimal 0 [f, g], readDecimal 0 [h, i]) of
         (Some a, Some b, Some c) \<Rightarrow> Some (a, b, c) | _ \<Rightarrow> None)"
    by (simp add: reparseDate_spec_def reparse3_spec_def)
  then show ?thesis
    unfolding y [symmetric] m [symmetric] d [symmetric]
    by (simp add: readDecimal_fourDigits readDecimal_twoDigits assms)
qed

lemma reparseTime_formatted:
  assumes "0 \<le> y" "y \<le> 99" "0 \<le> m" "m \<le> 99" "0 \<le> d" "d \<le> 99"
  shows "reparseTime_spec (twoDigits y @ '':'' @ twoDigits m @ '':'' @ twoDigits d) = Some (y, m, d)"
proof -
  obtain a b where y: "twoDigits y = [a, b]" by (simp add: twoDigits_def)
  obtain f g where m: "twoDigits m = [f, g]" by (simp add: twoDigits_def)
  obtain h i where d: "twoDigits d = [h, i]" by (simp add: twoDigits_def)
  have "reparseTime_spec ([a, b] @ '':'' @ [f, g] @ '':'' @ [h, i]) =
      (case (readDecimal 0 [a, b], readDecimal 0 [f, g], readDecimal 0 [h, i]) of
         (Some a, Some b, Some c) \<Rightarrow> Some (a, b, c) | _ \<Rightarrow> None)"
    by (simp add: reparseTime_spec_def reparse3_spec_def)
  then show ?thesis
    unfolding y [symmetric] m [symmetric] d [symmetric]
    by (simp add: readDecimal_twoDigits assms)
qed

lemma showInt_examples:
  "showInt 2025 = ''2025''" "setw2 1 = ''01''" "setw2 10 = ''10''" "setw2 13 = ''13''"
  "setw2 30 = ''30''" "setw2 45 = ''45''" "setw2 7 = ''07''"
  by (simp_all add: showInt_def setw2_def padLeft_def decDigits.simps decDigit_def)

lemma decToInt_examples:
  "decToInt ''25011013'' 0 = Inr 25" "decToInt ''25011013'' 2 = Inr 1"
  "decToInt ''25011013'' 4 = Inr 10" "decToInt ''25011013'' 6 = Inr 13"
  "decToInt ''30450000'' 0 = Inr 30" "decToInt ''30450000'' 2 = Inr 45"
  "decToInt ''00000000'' 0 = Inr 0" "decToInt ''00000000'' 2 = Inr 0"
  "decToInt ''00000000'' 4 = Inr 0" "decToInt ''00000000'' 6 = Inr 0"
  by (simp_all add: decToInt_def)

lemma parseDateTime_sample:
  "parseDateTimeFromTwoHex ''25011013'' ''30450000'' = Inr (sampleRow 45 [])"
  by (simp add: parseDateTimeFromTwoHex_def decToInt_examples bindE_def sampleRow_def
      showInt_examples)

lemma parseDateTime_zero:
  "parseDateTimeFromTwoHex ''00000000'' ''00000000'' = Inl MonthInvalid"
  by (simp add: parseDateTimeFromTwoHex_def decToInt_examples bindE_def)

section \<open>The loop body\<close>

lemma floatLoop_Inr:
  "floatLoop toFloat hs fvals = Inr fv \<Longrightarrow>
     \<exists>vs. fv = fvals @ vs \<and> map (parseHexAsFloatLittleEndian toFloat) hs = map Inr vs"
proof (induction hs arbitrary: fvals)
  case Nil
  then show ?case by simp
next
  case (Cons h hs)
  from Cons.prems obtain v where v: "parseHexAsFloatLittleEndian toFloat h = Inr v"
    and rest: "floatLoop toFloat hs (fvals @ [v]) = Inr fv"
    by (auto split: sum.splits)
  from Cons.IH [OF rest] obtain vs where "fv = (fvals @ [v]) @ vs"
    and "map (parseHexAsFloatLittleEndian toFloat) hs = map Inr vs" by blast
  with v have "fv = fvals @ (v # vs) \<and>
      map (parseHexAsFloatLittleEndian toFloat) (h # hs) = map Inr (v # vs)" by simp
  then show ?case by blast
qed

lemma floatLoop_isl:
  "isl (floatLoop toFloat hs fvals) \<longleftrightarrow> (\<exists>h \<in> set hs. isl (parseHexAsFloatLittleEndian toFloat h))"
  by (induction hs arbitrary: fvals) (auto split: sum.splits)

lemma parseHex_error:
  "parseHexAsFloatLittleEndian toFloat h = Inl e \<Longrightarrow> e = HexTooShort \<or> e = InvalidHexChar"
proof -
  have "hexLoop v cs = Inl e \<Longrightarrow> e = InvalidHexChar" for v cs
    by (induction cs arbitrary: v) (auto simp add: Let_def split: if_splits)
  then show "parseHexAsFloatLittleEndian toFloat h = Inl e \<Longrightarrow> e = HexTooShort \<or> e = InvalidHexChar"
    by (auto simp add: parseHexAsFloatLittleEndian_def hexToUint32_def split: sum.splits if_splits)
qed

lemma floatLoop_error:
  "floatLoop toFloat hs fvals = Inl e \<Longrightarrow> e = HexTooShort \<or> e = InvalidHexChar"
  by (induction hs arbitrary: fvals) (auto split: sum.splits dest: parseHex_error)

text \<open>The loop body on a group of 16 strings, in terms of the strings of the group.\<close>

lemma processGroup_16:
  assumes "length g = 16"
  shows "processGroup toFloat g rows =
     (case parseDateTimeFromTwoHex (g ! 1) (g ! 2) of
        Inl _ \<Rightarrow> Inr rows
      | Inr r \<Rightarrow>
          (case floatLoop toFloat (drop 3 g) [] of
             Inl e \<Rightarrow> Inl e
           | Inr fvals \<Rightarrow> Inr (rows @ [r\<lparr>floatValues := fvals\<rparr>])))"
proof -
  from assms obtain m g' where g: "g = m # g'" and l: "length g' = 15"
    by (cases g) simp_all
  have d: "drop 3 (m # g') = drop 2 g'" by (simp add: drop_Cons')
  from l show ?thesis unfolding g d
    by (simp add: processGroup_def Let_def split: sum.splits)
qed

lemma processGroup_Inr:
  assumes "length g = 16" "processGroup toFloat g rows = Inr rows'"
  shows "rows' = rows \<or> (\<exists>r. rows' = rows @ [r] \<and> recordInvariant r \<and> decodedFrom toFloat g r)"
proof (cases "parseDateTimeFromTwoHex (g ! 1) (g ! 2) :: error + 'a Record")
  case (Inl e)
  with assms show ?thesis by (simp add: processGroup_16)
next
  case (Inr r)
  with assms obtain fv where fl: "floatLoop toFloat (drop 3 g) [] = Inr fv"
    and rows': "rows' = rows @ [r\<lparr>floatValues := fv\<rparr>]"
    by (auto simp add: processGroup_16 split: sum.splits)
  from floatLoop_Inr [OF fl]
  have m: "map (parseHexAsFloatLittleEndian toFloat) (drop 3 g) = map Inr fv" by simp
  then have "length (drop 3 g) = length fv" by (metis length_map)
  with assms(1) have len: "length fv = 13" by simp
  note i = parseDateTime_invariant [OF Inr]
  from i have e: "r\<lparr>floatValues := fv\<rparr>\<lparr>floatValues := []\<rparr> = r" by simp
  from i len have "recordInvariant (r\<lparr>floatValues := fv\<rparr>)"
    by (simp add: recordInvariant_def)
  moreover from assms(1) Inr m e have "decodedFrom toFloat g (r\<lparr>floatValues := fv\<rparr>)"
    by (simp add: decodedFrom_def)
  ultimately show ?thesis using rows' by blast
qed

lemma chunks_length: "g \<in> set (chunks n xs) \<Longrightarrow> length g = n"
proof (induction n xs rule: chunks.induct)
  case (1 n xs)
  show ?case
  proof (cases "n = 0 \<or> length xs < n")
    case True
    with "1.prems" show ?thesis by (auto simp add: chunks.simps [of n xs])
  next
    case False
    with "1.prems" have "g = take n xs \<or> g \<in> set (chunks n (drop n xs))"
      by (simp add: chunks.simps [of n xs])
    with False "1.IH" show ?thesis by auto
  qed
qed

lemma forEachGroup_invariant:
  assumes "\<forall>g \<in> set gs. length g = 16"
    and "forEachGroup (processGroup toFloat) gs rows = Inr rows'"
  shows "\<exists>new. rows' = rows @ new \<and>
           (\<forall>r \<in> set new. recordInvariant r \<and> (\<exists>g \<in> set gs. decodedFrom toFloat g r))"
  using assms
proof (induction gs arbitrary: rows)
  case Nil
  then show ?case by simp
next
  case (Cons g gs)
  from Cons.prems(2) obtain rows1 where p: "processGroup toFloat g rows = Inr rows1"
    and rest: "forEachGroup (processGroup toFloat) gs rows1 = Inr rows'"
    by (auto split: sum.splits)
  from Cons.prems(1) have lg: "length g = 16" and lgs: "\<forall>g \<in> set gs. length g = 16" by simp_all
  from Cons.IH [OF lgs rest] obtain new where new: "rows' = rows1 @ new"
    and inv: "\<forall>r \<in> set new. recordInvariant r \<and> (\<exists>g \<in> set gs. decodedFrom toFloat g r)"
    by blast
  from processGroup_Inr [OF lg p] consider "rows1 = rows"
    | r where "rows1 = rows @ [r]" "recordInvariant r" "decodedFrom toFloat g r"
    by blast
  then show ?case
  proof cases
    case 1
    with new inv have "rows' = rows @ new \<and>
        (\<forall>r \<in> set new. recordInvariant r \<and> (\<exists>g' \<in> set (g # gs). decodedFrom toFloat g' r))"
      by auto
    then show ?thesis by blast
  next
    case 2
    with new inv have "rows' = rows @ (r # new) \<and>
        (\<forall>r' \<in> set (r # new). recordInvariant r' \<and> (\<exists>g' \<in> set (g # gs). decodedFrom toFloat g' r'))"
      by auto
    then show ?thesis by blast
  qed
qed

lemma groupLoop_split:
  assumes "length pre = 16 * k" "length g = 16"
  shows "groupLoop body (pre @ g @ post) 0 rows =
     (case groupLoop body pre 0 rows of
        Inl e \<Rightarrow> Inl e
      | Inr rows1 \<Rightarrow>
          (case body g rows1 of
             Inl e \<Rightarrow> Inl e
           | Inr rows2 \<Rightarrow> groupLoop body post 0 rows2))"
proof -
  from assms(1) have p: "length pre = k * 16" by simp
  from assms(2) have g: "length g = 1 * 16" by simp
  from assms(2) have cg: "chunks 16 g = [g]"
    by (simp add: chunks.simps [of 16 g] chunks.simps [of 16 "[]"])
  have "chunks 16 (pre @ g @ post) = chunks 16 pre @ [g] @ chunks 16 post"
    by (simp only: chunks_append [OF zero_less_numeral p] chunks_append [OF zero_less_numeral g] cg)
  then show ?thesis
    by (simp add: groupLoop_forEachGroup forEachGroup_append split: sum.splits)
qed

lemma groupLoop_skip:
  assumes "length pre = 16 * k"
  shows "groupLoop body (pre @ post) 0 rows =
     (case groupLoop body pre 0 rows of
        Inl e \<Rightarrow> Inl e
      | Inr rows1 \<Rightarrow> groupLoop body post 0 rows1)"
proof -
  from assms have p: "length pre = k * 16" by simp
  show ?thesis
    by (simp add: groupLoop_forEachGroup forEachGroup_append chunks_append [OF zero_less_numeral p]
        split: sum.splits)
qed

lemma forEachGroup_error:
  "forEachGroup (processGroup toFloat) gs rows = Inl e \<Longrightarrow> e = HexTooShort \<or> e = InvalidHexChar"
proof (induction gs arbitrary: rows)
  case Nil
  then show ?case by simp
next
  case (Cons g gs)
  show ?case
  proof (cases "processGroup toFloat g rows")
    case (Inl e')
    with Cons.prems have "e' = e" by simp
    with Inl show ?thesis
      by (auto simp add: processGroup_def Let_def split: if_splits sum.splits dest: floatLoop_error)
  next
    case (Inr rows1)
    with Cons show ?thesis by simp
  qed
qed

lemma forEachGroup_skipped_group:
  fixes toFloat :: "uint32 \<Rightarrow> 'f"
  assumes "length g = 16"
    and "isl (parseDateTimeFromTwoHex (g ! 1) (g ! 2) :: error + 'f Record)"
  shows "forEachGroup (processGroup toFloat) (gs1 @ g # gs2) rows
       = forEachGroup (processGroup toFloat) (gs1 @ gs2) rows"
proof -
  from assms have "processGroup toFloat g rows1 = Inr rows1" for rows1
    by (auto simp add: processGroup_16 isl_def)
  then show ?thesis
    by (simp add: forEachGroup_append split: sum.splits)
qed

section \<open>The sample data\<close>

lemma replicate_numeral_Cons: "replicate (numeral k) x = x # replicate (pred_numeral k) x"
  by (simp add: numeral_eq_Suc)

lemma sampleGroup_nth:
  "length (sampleGroup f0) = 16" "sampleGroup f0 ! 1 = ''25011013''"
  "sampleGroup f0 ! Suc 0 = ''25011013''"
  "sampleGroup f0 ! 2 = ''30450000''"
  "drop 3 (sampleGroup f0) = f0 # replicate 12 ''00000000''"
  by (simp_all add: sampleGroup_def)

lemma zeroGroup_nth:
  "length zeroGroup = 16" "zeroGroup ! 1 = ''00000000''" "zeroGroup ! Suc 0 = ''00000000''"
  "zeroGroup ! 2 = ''00000000''"
  by (simp_all add: zeroGroup_def)

lemma parseHex_examples:
  "parseHexAsFloatLittleEndian (\<lambda>w. w) ''0000803F'' = Inr 0x3F800000"
  "parseHexAsFloatLittleEndian (\<lambda>w. w) ''00000000'' = Inr 0"
  "parseHexAsFloatLittleEndian (\<lambda>w. w) ''0000803G'' = Inl InvalidHexChar"
  by (simp_all add: parseHexAsFloatLittleEndian_def hexToUint32_def swapBigEndianToHost_def)

lemma snprintf_examples:
  "snprintf_08X 0 = ''00000000''" "snprintf_08X 0x25011013 = ''25011013''"
  "snprintf_08X 0x30450000 = ''30450000''" "snprintf_08X 0x0000803F = ''0000803F''"
  by (simp_all add: snprintf_08X_def hexUpper.simps padLeft_def hexDigitUpper_def
      replicate_numeral_Cons)

lemma blockWords_sampleFile:
  "blockWords_spec (drop 192 sampleFile) =
     [0, 0, 0x25011013, 0x30450000, 0x0000803F] @ replicate 12 0 @ replicate 16 0"
  by (simp add: sampleFile_def blockWords_spec_def chunks.simps beWord_def
      replicate_numeral_Cons)

lemma kept_sampleFile:
  "keptHexWords_spec sampleFile = sampleGroup ''0000803F'' @ zeroGroup"
proof -
  have l: "length (drop 192 sampleFile) = 132" by (simp add: sampleFile_def)
  then have t: "take 132 (drop 192 sampleFile) = drop 192 sampleFile" by simp
  from l have d: "chunks 128 (drop 132 (drop 192 sampleFile)) = []" by simp
  have ls: "length sampleFile = 324" by (simp add: sampleFile_def)
  show ?thesis
    unfolding keptHexWords_spec_def Let_def t d blockWords_sampleFile
    by (simp add: ls snprintf_examples sampleGroup_def zeroGroup_def)
qed

lemma groups_sampleFile:
  "groups16_spec (keptHexWords_spec sampleFile) = [sampleGroup ''0000803F'', zeroGroup]"
proof -
  have "length (sampleGroup ''0000803F'') = 1 * 16" "length zeroGroup = 1 * 16"
    by (simp_all add: sampleGroup_nth zeroGroup_nth)
  then show ?thesis
    by (simp add: kept_sampleFile groups16_spec_def chunks_append chunks.simps [of 16])
qed

lemma floatLoop_zeros:
  "floatLoop (\<lambda>w. w) (replicate n ''00000000'') fvals = Inr (fvals @ replicate n 0)"
  by (induction n arbitrary: fvals) (simp_all add: parseHex_examples replicate_app_Cons_same)

lemma processGroup_sampleGroup:
  "processGroup (\<lambda>w. w) (sampleGroup ''0000803F'') rows
     = Inr (rows @ [sampleRow 45 (0x3F800000 # replicate 12 0)])"
  by (simp add: processGroup_16 sampleGroup_nth parseDateTime_sample parseHex_examples
      floatLoop_zeros sampleRow_def)

lemma processGroup_zeroGroup: "processGroup toFloat zeroGroup rows = Inr rows"
  by (simp add: processGroup_16 zeroGroup_nth parseDateTime_zero)

lemma parseBinFile_sampleFile:
  "parseBinFile (\<lambda>w. w) (Some sampleFile) = Inr [sampleRow 45 (0x3F800000 # replicate 12 0)]"
  by (simp add: parseBinFile_forEachGroup groups_sampleFile processGroup_sampleGroup
      processGroup_zeroGroup)

lemma decToInt_pairValue:
  "decToInt s p = (case pairValue s p of None \<Rightarrow> Inl NotDecimalDigit | Some v \<Rightarrow> Inr v)"
  by (auto simp add: decToInt_def pairValue_def digitValue_def Let_def not_le not_less)

lemma pairValue_range: "pairValue s p = Some v \<Longrightarrow> 0 \<le> v \<and> v \<le> 99"
  using decToInt_range [of s p v] by (simp add: decToInt_pairValue)

lemma valid_text_accepted:
  assumes "validTimestampText hex1 hex2"
  shows "\<exists>r. parseDateTimeFromTwoHex hex1 hex2 = Inr r"
proof -
  from assms obtain YY MM DD hh mm ss where p:
    "pairValue hex1 0 = Some YY" "pairValue hex1 2 = Some MM" "pairValue hex1 4 = Some DD"
    "pairValue hex1 6 = Some hh" "pairValue hex2 0 = Some mm" "pairValue hex2 2 = Some ss"
    and r: "1 \<le> MM" "MM \<le> 12" "1 \<le> DD" "DD \<le> 31" "hh \<le> 23" "mm \<le> 59" "ss \<le> 59"
    and l: "length hex1 = 8" "length hex2 = 8"
    by (auto simp add: validTimestampText_def split: option.splits)
  from p pairValue_range have n: "0 \<le> YY" "YY \<le> 99" "0 \<le> hh" "0 \<le> mm" "0 \<le> ss"
    by blast+
  from p r l n show ?thesis
    by (simp add: parseDateTimeFromTwoHex_def decToInt_pairValue bindE_def Let_def)
qed

lemma pairValue_examples:
  "pairValue ''25011013'' 0 = Some 25" "pairValue ''25011013'' 2 = Some 1"
  "pairValue ''25011013'' 4 = Some 10" "pairValue ''25011013'' 6 = Some 13"
  "pairValue ''30450000'' 0 = Some 30" "pairValue ''30450000'' 2 = Some 45"
  by (simp_all add: pairValue_def digitValue_def)

lemma valid_sample_text: "validTimestampText ''25011013'' ''30450000''"
  by (simp add: validTimestampText_def pairValue_examples)

section \<open>The text of a row\<close>

lemma fprintf_s_no_nul: "CHR 0x00 \<notin> set s \<Longrightarrow> fprintf_s s = s"
  by (auto simp add: fprintf_s_def takeWhile_eq_all_conv)


lemma char_of_ne_nul: "0 < n \<Longrightarrow> n < 256 \<Longrightarrow> char_of (n::nat) \<noteq> CHR 0x00"
proof
  assume n: "0 < n" "n < 256" and e: "char_of n = CHR 0x00"
  from e have "(of_char (char_of n) :: nat) = of_char (CHR 0x00)" by simp
  with n show False by (simp add: of_char_of)
qed

lemma csvHeader_no_nul: "CHR 0x00 \<notin> set csvHeader"
  by (simp add: csvHeader_def char_of_ne_nul [symmetric])

lemma fprintf_s_csvHeader: "fprintf_s csvHeader = csvHeader"
  by (rule fprintf_s_no_nul [OF csvHeader_no_nul])










section \<open>The records of a file\<close>

lemma keptHexWords_keptWords: "keptHexWords_spec bytes = map snprintf_08X (keptWords_spec bytes)"
  by (simp add: keptHexWords_spec_def keptWords_spec_def Let_def map_concat comp_def)

lemma processGroup_words:
  assumes "length ws = 16"
  shows "processGroup toFloat (map snprintf_08X ws) rows = Inr (rows @ decodeWords_spec toFloat ws)"
proof -
  from assms have l: "length (map snprintf_08X ws) = 16" by simp
  from assms have n: "map snprintf_08X ws ! 1 = snprintf_08X (ws ! 1)"
    "map snprintf_08X ws ! 2 = snprintf_08X (ws ! 2)" by simp_all
  show ?thesis
    unfolding processGroup_16 [OF l] n drop_map floatLoop_rendered decodeWords_spec_def
    by (simp split: sum.splits)
qed

lemma forEachGroup_words:
  "\<forall>ws \<in> set wss. length ws = 16 \<Longrightarrow>
     forEachGroup (processGroup toFloat) (map (map snprintf_08X) wss) rows
       = Inr (rows @ concat (map (decodeWords_spec toFloat) wss))"
  by (induction wss arbitrary: rows) (simp_all add: processGroup_words)

lemma parseBinFile_records:
  "parseBinFile toFloat (Some bytes) =
     Inr (concat (map (decodeWords_spec toFloat) (chunks 16 (keptWords_spec bytes))))"
proof -
  have "\<forall>ws \<in> set (chunks 16 (keptWords_spec bytes)). length ws = 16"
    by (auto dest: chunks_length)
  from forEachGroup_words [OF this, of toFloat "[]"] show ?thesis
    by (simp add: parseBinFile_forEachGroup groups16_spec_def keptHexWords_keptWords chunks_map)
qed

lemma processGroup_float_error:
  fixes toFloat :: "uint32 \<Rightarrow> 'f"
  assumes "length g = 16"
    and "\<not> isl (parseDateTimeFromTwoHex (g ! 1) (g ! 2) :: error + 'f Record)"
    and "\<exists>h \<in> set (drop 3 g). isl (parseHexAsFloatLittleEndian toFloat h)"
  shows "\<exists>e. (e = HexTooShort \<or> e = InvalidHexChar) \<and>
           (\<forall>rows. processGroup toFloat g rows = Inl e)"
proof -
  from assms(2) obtain r :: "'f Record" where r: "parseDateTimeFromTwoHex (g ! 1) (g ! 2) = Inr r"
    by (cases "parseDateTimeFromTwoHex (g ! 1) (g ! 2) :: error + 'f Record") auto
  from assms(3) have "isl (floatLoop toFloat (drop 3 g) [])" by (simp add: floatLoop_isl)
  then obtain e where e: "floatLoop toFloat (drop 3 g) [] = Inl e" by (auto simp add: isl_def)
  with r have "\<forall>rows. processGroup toFloat g rows = Inl e"
    by (simp add: processGroup_16 [OF assms(1)])
  with floatLoop_error [OF e] show ?thesis by blast
qed

lemma parseBinFileWith_propagates:
  assumes "groups16_spec (keptHexWords_spec bytes) = gs1 @ g # gs2"
    and "forEachGroup body gs1 [] = Inr acc1" and "body g acc1 = Inl e"
  shows "parseBinFileWith body (Some bytes) = Inl e"
  using assms by (simp add: parseBinFileWith_forEachGroup forEachGroup_append)

lemma keptWords_sampleFile: "keptWords_spec sampleFile = sampleWords @ replicate 16 0"
proof -
  have l: "length (drop 192 sampleFile) = 132" by (simp add: sampleFile_def)
  then have t: "take 132 (drop 192 sampleFile) = drop 192 sampleFile" by simp
  from l have d: "chunks 128 (drop 132 (drop 192 sampleFile)) = []" by simp
  have ls: "length sampleFile = 324" by (simp add: sampleFile_def)
  show ?thesis
    unfolding keptWords_spec_def Let_def t d blockWords_sampleFile
    by (simp add: ls sampleWords_def)
qed

lemma blockWords_sampleFileSkipFirst:
  "blockWords_spec (drop 192 sampleFileSkipFirst) =
     0 # replicate 16 0 @ [0, 0x25011013, 0x30450000, 0x0000803F] @ replicate 12 0"
  by (simp add: sampleFileSkipFirst_def blockWords_spec_def chunks.simps beWord_def
      replicate_numeral_Cons)

lemma keptWords_sampleFileSkipFirst:
  "keptWords_spec sampleFileSkipFirst = replicate 16 0 @ sampleWords"
proof -
  have l: "length (drop 192 sampleFileSkipFirst) = 132" by (simp add: sampleFileSkipFirst_def)
  then have t: "take 132 (drop 192 sampleFileSkipFirst) = drop 192 sampleFileSkipFirst" by simp
  from l have d: "chunks 128 (drop 132 (drop 192 sampleFileSkipFirst)) = []" by simp
  have ls: "length sampleFileSkipFirst = 324" by (simp add: sampleFileSkipFirst_def)
  show ?thesis
    unfolding keptWords_spec_def Let_def t d blockWords_sampleFileSkipFirst
    by (simp add: ls sampleWords_def)
qed

lemma chunks_sampleFileSkipFirst:
  "chunks 16 (keptWords_spec sampleFileSkipFirst) = [] @ replicate 16 0 # [sampleWords]"
proof -
  have "length (replicate 16 (0::uint32)) = 1 * 16" "length sampleWords = 1 * 16"
    by (simp_all add: sampleWords_def)
  then show ?thesis
    by (simp add: keptWords_sampleFileSkipFirst chunks_append chunks.simps [of 16])
qed

lemma zeroGroup_words: "zeroGroup = map snprintf_08X (replicate 16 0)"
  by (simp add: zeroGroup_def snprintf_examples)

lemma sampleGroup_words: "sampleGroup ''0000803F'' = map snprintf_08X sampleWords"
  by (simp add: sampleGroup_def sampleWords_def snprintf_examples)

lemma decodeWords_zero: "decodeWords_spec toFloat (replicate 16 0) = []"
  by (simp add: decodeWords_spec_def snprintf_examples parseDateTime_zero)

lemma decodeWords_sample:
  "decodeWords_spec (\<lambda>w. w) sampleWords = [sampleRow 45 (0x3F800000 # replicate 12 0)]"
  by (simp add: decodeWords_spec_def sampleWords_def snprintf_examples parseDateTime_sample
      swapBigEndianToHost_def sampleRow_def)

lemma throwOnZeroGroup_examples:
  "forEachGroup throwOnZeroGroup [sampleGroup ''0000803F''] [] = Inr [sampleGroup ''0000803F'']"
  "throwOnZeroGroup zeroGroup acc = Inl InvalidHexChar"
  by (simp_all add: throwOnZeroGroup_def sampleGroup_def zeroGroup_def replicate_numeral_Cons)

section \<open>Claims\<close>

text \<open>
  C1. For every input file, the groups of 16 hex words that the decoder processes, block
  by block with the group index restarted at each block, are exactly the groups obtained
  by partitioning the concatenation of all kept hex words of the file into consecutive
  groups of 16; the records returned are those obtained by decoding these groups in
  order. (Every block contributes 32 kept words, so no group is ever cut by a block
  boundary.)
\<close>

theorem per_block_grouping_is_global_grouping:
  "groupsVisited bytes = Inr (groups16_spec (keptHexWords_spec bytes)) \<and>
   parseBinFile toFloat (Some bytes) =
     forEachGroup (processGroup toFloat) (groups16_spec (keptHexWords_spec bytes)) []"
  by (simp only: groupsVisited_eq parseBinFile_forEachGroup)

text \<open>
  C2. The two kinds of decoding error are treated differently.

  Timestamp errors. The records \<^verbatim>\<open>parseBinFile\<close> returns are, group by group in the
  order of the file, nothing for a group whose timestamp strings the timestamp parser
  rejects and one record for every other group. On a group with a rejected timestamp the
  loop body returns \<^verbatim>\<open>rows\<close> unchanged, the loop over the groups returns what it returns
  on the strings without that group, and \<^verbatim>\<open>parseBinFile\<close> returns the records of the
  groups before it followed by the records of the groups after it.

  Float errors. On a group whose timestamp is accepted (so that its values are parsed at
  all) and one of whose 13 value strings the float parser rejects, the loop body ends with
  that parser's exception whatever \<^verbatim>\<open>rows\<close> is, and so does the loop over the groups.
  \<^verbatim>\<open>parseBinFile\<close> is its two loops around this body, and the loops catch nothing:
  whenever a body throws on a group of the file that the loops reach, the call ends with
  that exception and returns no records.
\<close>

theorem timestamp_errors_skip_float_errors_abort:
  fixes toFloat :: "uint32 \<Rightarrow> 'f"
  assumes "length pre = 16 * k" and "length g = 16"
  shows "parseBinFile toFloat file = parseBinFileWith (processGroup toFloat) file \<and>
         parseBinFile toFloat (Some bytes)
           = Inr (concat (map (decodeWords_spec toFloat) (chunks 16 (keptWords_spec bytes)))) \<and>
         (isl (parseDateTimeFromTwoHex (g ! 1) (g ! 2) :: error + 'f Record) \<longrightarrow>
            processGroup toFloat g rows = Inr rows \<and>
            groupLoop (processGroup toFloat) (pre @ g @ post) 0 rows
              = groupLoop (processGroup toFloat) (pre @ post) 0 rows) \<and>
         (isl (parseDateTimeFromTwoHex (g ! 1) (g ! 2) :: error + 'f Record) \<and>
          chunks 16 (keptWords_spec bytes) = wss1 @ ws # wss2 \<and> g = map snprintf_08X ws \<longrightarrow>
            parseBinFile toFloat (Some bytes)
              = Inr (concat (map (decodeWords_spec toFloat) wss1) @
                     concat (map (decodeWords_spec toFloat) wss2))) \<and>
         (\<not> isl (parseDateTimeFromTwoHex (g ! 1) (g ! 2) :: error + 'f Record) \<and>
          (\<exists>h \<in> set (drop 3 g). isl (parseHexAsFloatLittleEndian toFloat h)) \<longrightarrow>
            (\<exists>e. (e = HexTooShort \<or> e = InvalidHexChar) \<and>
                 (\<forall>rows'. processGroup toFloat g rows' = Inl e)) \<and>
            (groupLoop (processGroup toFloat) (pre @ g @ post) 0 rows = Inl HexTooShort \<or>
             groupLoop (processGroup toFloat) (pre @ g @ post) 0 rows = Inl InvalidHexChar)) \<and>
         (groups16_spec (keptHexWords_spec bytes) = gs1 @ g' # gs2 \<and>
          forEachGroup body gs1 [] = Inr acc1 \<and> body g' acc1 = Inl e \<longrightarrow>
            parseBinFileWith body (Some bytes) = Inl e)"
proof (intro conjI impI)
  show "parseBinFile toFloat file = parseBinFileWith (processGroup toFloat) file"
    by (simp add: parseBinFile_def)
next
  show "parseBinFile toFloat (Some bytes)
      = Inr (concat (map (decodeWords_spec toFloat) (chunks 16 (keptWords_spec bytes))))"
    by (rule parseBinFile_records)
next
  assume "isl (parseDateTimeFromTwoHex (g ! 1) (g ! 2) :: error + 'f Record)"
  then show "processGroup toFloat g rows = Inr rows"
    by (auto simp add: processGroup_16 [OF assms(2)] isl_def)
next
  assume "isl (parseDateTimeFromTwoHex (g ! 1) (g ! 2) :: error + 'f Record)"
  then have "processGroup toFloat g rows1 = Inr rows1" for rows1
    by (auto simp add: processGroup_16 [OF assms(2)] isl_def)
  then show "groupLoop (processGroup toFloat) (pre @ g @ post) 0 rows
      = groupLoop (processGroup toFloat) (pre @ post) 0 rows"
    unfolding groupLoop_split [OF assms] groupLoop_skip [OF assms(1), of _ post]
    by (simp split: sum.splits)
next
  assume a: "isl (parseDateTimeFromTwoHex (g ! 1) (g ! 2) :: error + 'f Record) \<and>
    chunks 16 (keptWords_spec bytes) = wss1 @ ws # wss2 \<and> g = map snprintf_08X ws"
  then have g: "g = map snprintf_08X ws" by simp
  with assms(2) have l: "length ws = 16" by simp
  have n: "g ! 1 = snprintf_08X (ws ! 1)" "g ! 2 = snprintf_08X (ws ! 2)"
    unfolding g using l by simp_all
  from a have "isl (parseDateTimeFromTwoHex (snprintf_08X (ws ! 1)) (snprintf_08X (ws ! 2))
      :: error + 'f Record)"
    unfolding n by simp
  then have "decodeWords_spec toFloat ws = []"
    by (auto simp add: decodeWords_spec_def isl_def)
  with a show "parseBinFile toFloat (Some bytes)
      = Inr (concat (map (decodeWords_spec toFloat) wss1) @
             concat (map (decodeWords_spec toFloat) wss2))"
    by (simp add: parseBinFile_records)
next
  assume a: "\<not> isl (parseDateTimeFromTwoHex (g ! 1) (g ! 2) :: error + 'f Record) \<and>
    (\<exists>h \<in> set (drop 3 g). isl (parseHexAsFloatLittleEndian toFloat h))"
  then show "\<exists>e. (e = HexTooShort \<or> e = InvalidHexChar) \<and>
      (\<forall>rows'. processGroup toFloat g rows' = Inl e)"
    by (intro processGroup_float_error [OF assms(2)]) simp_all
next
  assume a: "\<not> isl (parseDateTimeFromTwoHex (g ! 1) (g ! 2) :: error + 'f Record) \<and>
    (\<exists>h \<in> set (drop 3 g). isl (parseHexAsFloatLittleEndian toFloat h))"
  then have "\<exists>e. (e = HexTooShort \<or> e = InvalidHexChar) \<and>
      (\<forall>rows'. processGroup toFloat g rows' = Inl e)"
    by (intro processGroup_float_error [OF assms(2)]) simp_all
  then obtain e where "\<forall>rows'. processGroup toFloat g rows' = Inl e" by blast
  then have "isl (groupLoop (processGroup toFloat) (pre @ g @ post) 0 rows)"
    by (simp add: groupLoop_split [OF assms] split: sum.splits)
  then obtain e' where e': "groupLoop (processGroup toFloat) (pre @ g @ post) 0 rows = Inl e'"
    by (auto simp add: isl_def)
  then have "forEachGroup (processGroup toFloat) (chunks 16 (pre @ g @ post)) rows = Inl e'"
    by (simp add: groupLoop_forEachGroup)
  from forEachGroup_error [OF this] e'
  show "groupLoop (processGroup toFloat) (pre @ g @ post) 0 rows = Inl HexTooShort \<or>
      groupLoop (processGroup toFloat) (pre @ g @ post) 0 rows = Inl InvalidHexChar"
    by auto
next
  assume "groups16_spec (keptHexWords_spec bytes) = gs1 @ g' # gs2 \<and>
    forEachGroup body gs1 [] = Inr acc1 \<and> body g' acc1 = Inl e"
  then show "parseBinFileWith body (Some bytes) = Inl e"
    by (intro parseBinFileWith_propagates [of bytes gs1 g' gs2 body acc1 e]) simp_all
qed

theorem timestamp_errors_skip_float_errors_abort_witness:
  "length ([] :: string list) = 16 * 0 \<and> length zeroGroup = 16 \<and>
   isl (parseDateTimeFromTwoHex (zeroGroup ! 1) (zeroGroup ! 2) :: error + uint32 Record) \<and>
   chunks 16 (keptWords_spec sampleFileSkipFirst) = [] @ replicate 16 0 # [sampleWords] \<and>
   zeroGroup = map snprintf_08X (replicate 16 0) \<and>
   processGroup (\<lambda>w. w :: uint32) zeroGroup [] = Inr [] \<and>
   parseBinFile (\<lambda>w. w) (Some sampleFileSkipFirst)
     = Inr [sampleRow 45 (0x3F800000 # replicate 12 0)] \<and>
   length (sampleGroup ''0000803G'') = 16 \<and>
   parseDateTimeFromTwoHex (sampleGroup ''0000803G'' ! 1) (sampleGroup ''0000803G'' ! 2)
     = Inr (sampleRow 45 [] :: uint32 Record) \<and>
   ''0000803G'' \<in> set (drop 3 (sampleGroup ''0000803G'')) \<and>
   parseHexAsFloatLittleEndian (\<lambda>w. w) ''0000803G'' = Inl InvalidHexChar \<and>
   (processGroup (\<lambda>w. w :: uint32) (sampleGroup ''0000803G'') [] = Inl HexTooShort \<or>
    processGroup (\<lambda>w. w :: uint32) (sampleGroup ''0000803G'') [] = Inl InvalidHexChar) \<and>
   groups16_spec (keptHexWords_spec sampleFile) = [sampleGroup ''0000803F''] @ zeroGroup # [] \<and>
   forEachGroup throwOnZeroGroup [sampleGroup ''0000803F''] [] = Inr [sampleGroup ''0000803F''] \<and>
   throwOnZeroGroup zeroGroup [sampleGroup ''0000803F''] = Inl InvalidHexChar \<and>
   parseBinFileWith throwOnZeroGroup (Some sampleFile) = Inl InvalidHexChar"
proof -
  have l0: "length ([] :: string list) = 16 * 0" by simp
  have z: "isl (parseDateTimeFromTwoHex (zeroGroup ! 1) (zeroGroup ! 2) :: error + uint32 Record)"
    by (simp add: zeroGroup_nth parseDateTime_zero)
  have gs: "groups16_spec (keptHexWords_spec sampleFile) = [sampleGroup ''0000803F''] @ zeroGroup # []"
    by (simp add: groups_sampleFile)
  have t: "parseDateTimeFromTwoHex (sampleGroup ''0000803G'' ! 1) (sampleGroup ''0000803G'' ! 2)
      = Inr (sampleRow 45 [] :: uint32 Record)"
    by (simp add: sampleGroup_nth parseDateTime_sample)
  have nt: "\<not> isl (parseDateTimeFromTwoHex (sampleGroup ''0000803G'' ! 1)
      (sampleGroup ''0000803G'' ! 2) :: error + uint32 Record)"
    unfolding t by simp
  have m: "''0000803G'' \<in> set (drop 3 (sampleGroup ''0000803G''))"
    by (simp add: sampleGroup_nth)
  have f: "\<exists>h \<in> set (drop 3 (sampleGroup ''0000803G'')).
      isl (parseHexAsFloatLittleEndian (\<lambda>w. w :: uint32) h)"
    using m by (rule bexI [rotated]) (simp add: parseHex_examples)
  note skip = timestamp_errors_skip_float_errors_abort
    [where toFloat = "\<lambda>w. w :: uint32" and pre = "[]" and k = 0 and g = zeroGroup
      and post = "sampleGroup ''0000803F''" and rows = "[]" and bytes = sampleFileSkipFirst
      and ?wss1.0 = "[]" and ws = "replicate 16 0" and ?wss2.0 = "[sampleWords]",
      OF l0 zeroGroup_nth(1)]
  note skip3 = skip [THEN conjunct2, THEN conjunct2, THEN conjunct1, THEN mp, OF z]
  note skip4 = skip [THEN conjunct2, THEN conjunct2, THEN conjunct2, THEN conjunct1, THEN mp,
      OF conjI [OF z conjI [OF chunks_sampleFileSkipFirst zeroGroup_words]]]
  from skip3 have a: "processGroup (\<lambda>w. w :: uint32) zeroGroup [] = Inr []"
    by (rule conjunct1)
  from skip4 have a': "parseBinFile (\<lambda>w. w) (Some sampleFileSkipFirst)
      = Inr [sampleRow 45 (0x3F800000 # replicate 12 0)]"
    by (simp add: decodeWords_sample)
  note abort = timestamp_errors_skip_float_errors_abort
    [where toFloat = "\<lambda>w. w :: uint32" and pre = "[]" and k = 0
      and g = "sampleGroup ''0000803G''" and post = zeroGroup and rows = "[]",
      OF l0 sampleGroup_nth(1), THEN conjunct2, THEN conjunct2, THEN conjunct2, THEN conjunct2,
      THEN conjunct1, THEN mp, OF conjI [OF nt f], THEN conjunct1]
  then obtain e where e: "e = HexTooShort \<or> e = InvalidHexChar"
    and p: "\<forall>rows'. processGroup (\<lambda>w. w :: uint32) (sampleGroup ''0000803G'') rows' = Inl e"
    by (elim exE conjE)
  from p have "processGroup (\<lambda>w. w :: uint32) (sampleGroup ''0000803G'') [] = Inl e" by (rule spec)
  with e have b: "processGroup (\<lambda>w. w :: uint32) (sampleGroup ''0000803G'') [] = Inl HexTooShort \<or>
      processGroup (\<lambda>w. w :: uint32) (sampleGroup ''0000803G'') [] = Inl InvalidHexChar"
    by auto
  note ex2 = throwOnZeroGroup_examples(2) [of "[sampleGroup ''0000803F'']"]
  note c = timestamp_errors_skip_float_errors_abort
    [where toFloat = "\<lambda>w. w :: uint32" and pre = "[]" and k = 0 and g = zeroGroup
      and bytes = sampleFile and ?gs1.0 = "[sampleGroup ''0000803F'']" and g' = zeroGroup
      and ?gs2.0 = "[]" and body = throwOnZeroGroup and ?acc1.0 = "[sampleGroup ''0000803F'']"
      and e = InvalidHexChar, OF l0 zeroGroup_nth(1),
      THEN conjunct2, THEN conjunct2, THEN conjunct2, THEN conjunct2, THEN conjunct2, THEN mp,
      OF conjI [OF gs conjI [OF throwOnZeroGroup_examples(1) ex2]]]
  show ?thesis
    by (intro conjI l0 zeroGroup_nth(1) z chunks_sampleFileSkipFirst zeroGroup_words a a'
        sampleGroup_nth(1) t m parseHex_examples(3) b gs throwOnZeroGroup_examples(1) ex2 c)
qed

text \<open>
  C3. The claim says that a file shorter than 192 bytes makes the decoder fail with an I/O
  error. The program does not: \<^verbatim>\<open>fseek\<close> to offset 0xC0 succeeds on a shorter file,
  the first \<^verbatim>\<open>fread\<close> then returns no bytes, the loop ends and the empty vector is
  returned. The theorem states what the program does on every such file.
\<close>

theorem short_file_yields_no_records:
  "length bytes < 192 \<Longrightarrow> parseBinFile toFloat (Some bytes) = Inr []"
  by (simp add: parseBinFile_forEachGroup keptHexWords_short groups16_spec_def
      chunks.simps [of 16 "[]"])

theorem short_file_yields_no_records_witness:
  "length (replicate 191 (0::byte)) < 192 \<and>
   parseBinFile (\<lambda>w. w) (Some (replicate 191 0)) = Inr []"
  using short_file_yields_no_records [of "replicate 191 0" "\<lambda>w. w"] by simp

text \<open>
  C4. Every record that \<^verbatim>\<open>parseBinFile\<close> returns satisfies the invariant of the data
  model: the year is between 2000 and 2100, the month between 1 and 12, the day between 1
  and 31, the hour between 0 and 23, minute and second between 0 and 59, there are exactly
  13 values, and \<^verbatim>\<open>dateStr\<close> and \<^verbatim>\<open>timeStr\<close> are the zero-padded "YYYY/MM/DD" and
  "hh:mm:ss" of the numeric fields. Every such record is the complete decoding of one of
  the groups visited: its timestamp and all of its 13 values were parsed without error.
\<close>

theorem records_satisfy_invariant:
  assumes "parseBinFile toFloat file = Inr rows" and "r \<in> set rows"
  shows "recordInvariant r \<and>
         (\<exists>bytes gs g. file = Some bytes \<and> groupsVisited bytes = Inr gs \<and> g \<in> set gs \<and>
            decodedFrom toFloat g r)"
proof -
  from assms(1) obtain bytes where f: "file = Some bytes"
    by (cases "file") (simp_all add: parseBinFile_def parseBinFileWith_def)
  let ?gs = "groups16_spec (keptHexWords_spec bytes)"
  have l: "\<forall>g \<in> set ?gs. length g = 16"
    by (auto simp add: groups16_spec_def dest: chunks_length)
  from assms(1) f have "forEachGroup (processGroup toFloat) ?gs [] = Inr rows"
    by (simp add: parseBinFile_forEachGroup)
  from forEachGroup_invariant [OF l this] assms(2)
  have "recordInvariant r" and "\<exists>g \<in> set ?gs. decodedFrom toFloat g r" by auto
  with f groupsVisited_eq [of bytes] show ?thesis by blast
qed

theorem records_satisfy_invariant_witness:
  "parseBinFile (\<lambda>w. w) (Some sampleFile) = Inr [sampleRow 45 (0x3F800000 # replicate 12 0)] \<and>
   sampleRow 45 (0x3F800000 # replicate 12 (0 :: uint32))
     \<in> set [sampleRow 45 (0x3F800000 # replicate 12 0)] \<and>
   recordInvariant (sampleRow 45 (0x3F800000 # replicate 12 (0 :: uint32)))"
proof -
  have m: "sampleRow 45 (0x3F800000 # replicate 12 (0 :: uint32))
      \<in> set [sampleRow 45 (0x3F800000 # replicate 12 0)]" by simp
  from records_satisfy_invariant [OF parseBinFile_sampleFile m] parseBinFile_sampleFile m
  show ?thesis by blast
qed

text \<open>
  C5. Whatever rearrangement \<^verbatim>\<open>std::sort\<close> returns (a permutation of the input in
  which no record is less than an earlier one), the data rows of the CSV are the rows
  written for the records of \<^verbatim>\<open>uniqueRows\<close>, and these are in non-decreasing order of the tuple
  (year, month, day, hour, minute, second), carry pairwise different tuples, cover exactly
  the tuples of the input, and each is the first record with its tuple in the sorted
  vector.
\<close>

theorem csv_rows_sorted_and_deduplicated:
  assumes "stdSortResult rowsIn (sortFn rowsIn)"
  shows "writeCsv sortFn showFloat True rowsIn
           = Inr (csvHeader #
                  map (\<lambda>r. fprintf_s (renderRow showFloat r)) (uniqueRows sortFn rowsIn)) \<and>
         sorted (map recKey (uniqueRows sortFn rowsIn)) \<and>
         distinct (map recKey (uniqueRows sortFn rowsIn)) \<and>
         recKey ` set (uniqueRows sortFn rowsIn) = recKey ` set rowsIn \<and>
         (\<forall>r \<in> set (uniqueRows sortFn rowsIn).
            find (\<lambda>x. recKey x = recKey r) (sortFn rowsIn) = Some r)"
proof -
  from stdSortResult_sorted [OF assms]
  have s: "sorted (map recKey (sortFn rowsIn))" and e: "set (sortFn rowsIn) = set rowsIn"
    by simp_all
  have u: "uniqueRows sortFn rowsIn = firstOfRuns (sortFn rowsIn)"
    by (simp add: uniqueRows_def dedupLoop_firstOfRuns)
  from increasing_sorted_distinct [OF firstOfRuns_increasing [OF s]]
  have "sorted (map recKey (uniqueRows sortFn rowsIn))"
    and "distinct (map recKey (uniqueRows sortFn rowsIn))"
    by (simp_all add: u)
  moreover have "recKey ` set (uniqueRows sortFn rowsIn) = recKey ` set rowsIn"
    by (simp add: u keys_firstOfRuns e)
  moreover have "\<forall>r \<in> set (uniqueRows sortFn rowsIn).
      find (\<lambda>x. recKey x = recKey r) (sortFn rowsIn) = Some r"
    using firstOfRuns_first [OF s] by (simp add: u)
  moreover have "writeCsv sortFn showFloat True rowsIn
      = Inr (csvHeader #
             map (\<lambda>r. fprintf_s (renderRow showFloat r)) (uniqueRows sortFn rowsIn))"
    by (simp add: writeCsv_def fprintf_s_csvHeader)
  ultimately show ?thesis by blast
qed

theorem csv_rows_sorted_and_deduplicated_witness:
  "stdSortResult [sampleRow 45 [1 :: nat], sampleRow 7 [0 :: nat], sampleRow 45 [2 :: nat]]
     (sort_key recKey [sampleRow 45 [1 :: nat], sampleRow 7 [0 :: nat], sampleRow 45 [2 :: nat]]) \<and>
   uniqueRows (sort_key recKey) [sampleRow 45 [1 :: nat], sampleRow 7 [0 :: nat], sampleRow 45 [2 :: nat]]
     = [sampleRow 7 [0 :: nat], sampleRow 45 [1 :: nat]] \<and>
   sorted (map recKey [sampleRow 7 [0 :: nat], sampleRow 45 [1 :: nat]]) \<and>
   distinct (map recKey [sampleRow 7 [0 :: nat], sampleRow 45 [1 :: nat]]) \<and>
   find (\<lambda>x. recKey x = recKey (sampleRow 45 [1 :: nat])) [sampleRow 7 [0 :: nat], sampleRow 45 [1 :: nat], sampleRow 45 [2 :: nat]]
     = Some (sampleRow 45 [1 :: nat])"
proof -
  let ?rows = "[sampleRow 45 [1 :: nat], sampleRow 7 [0 :: nat], sampleRow 45 [2 :: nat]]"
  have h: "stdSortResult ?rows (sort_key recKey ?rows)" by (rule stdSortResult_sort_key)
  have s: "sort_key recKey ?rows = [sampleRow 7 [0 :: nat], sampleRow 45 [1 :: nat], sampleRow 45 [2 :: nat]]"
    by (simp add: recKey_sampleRow)
  have u: "uniqueRows (sort_key recKey) ?rows = [sampleRow 7 [0 :: nat], sampleRow 45 [1 :: nat]]"
    by (simp add: uniqueRows_def s dedupLoop_Cons recKey_sampleRow del: dedupLoop.simps(2))
  from csv_rows_sorted_and_deduplicated
      [where sortFn = "sort_key recKey" and rowsIn = ?rows and showFloat = decDigits, OF h] h u s
  show ?thesis by (simp add: sampleRow_eq_iff)
qed

text \<open>
  C7. Byte-swap round trip, as the program has it: for every 8-character string \<^verbatim>\<open>H\<close>
  that the float decoder accepts, rendering the word it reads before the swap with "%08X"
  gives \<^verbatim>\<open>H\<close> with its letters in upper case; it gives \<^verbatim>\<open>H\<close> itself when
  \<^verbatim>\<open>H\<close> has no lower-case letter.
\<close>

theorem hex_roundtrip_upper:
  "length H = 8 \<Longrightarrow> hexToUint32 H = Inr w \<Longrightarrow> snprintf_08X w = map toupperC H"
  by (rule snprintf_08X_hexToUint32)

theorem hex_roundtrip_upper_witness:
  "length ''00c0ffEE'' = 8 \<and> hexToUint32 ''00c0ffEE'' = Inr 0xC0FFEE \<and>
   snprintf_08X 0xC0FFEE = ''00C0FFEE''"
  using hex_roundtrip_upper [of "''00c0ffEE''" "0xC0FFEE"]
  by (simp add: hexToUint32_def toupperC_hex_letters toupperC_not_lower)

text \<open>The decoder accepts lower-case digits, the rendering is upper case: the round trip
  as the claim states it fails on "0000000a".\<close>

theorem hex_roundtrip_lowercase_counterexample:
  "length ''0000000a'' = 8 \<and> hexToUint32 ''0000000a'' = Inr 10 \<and>
   snprintf_08X 10 \<noteq> ''0000000a''"
  by (simp add: hexToUint32_def snprintf_08X_def hexUpper.simps padLeft_def hexDigitUpper_def)

text \<open>
  C8. Timestamp round trip: for all 8-character strings "YYMMDDhh" and "mmssxxxx" whose
  digit pairs are decimal and within the ranges, the timestamp parser builds a record, and
  reading the \<^verbatim>\<open>dateStr\<close> and the \<^verbatim>\<open>timeStr\<close> of that record back, as "YYYY/MM/DD"
  and "hh:mm:ss", gives the record's year, month and day, and its hour, minute and second.
\<close>

theorem timestamp_roundtrip:
  assumes "validTimestampText hex1 hex2"
  shows "\<exists>r :: 'f Record. parseDateTimeFromTwoHex hex1 hex2 = Inr r \<and>
           reparseDate_spec (dateStr r) = Some (year r, month r, day r) \<and>
           reparseTime_spec (timeStr r) = Some (hour r, minute r, second r)"
proof -
  from valid_text_accepted [OF assms] obtain r :: "'f Record"
    where p: "parseDateTimeFromTwoHex hex1 hex2 = Inr r" ..
  note i = parseDateTime_invariant [OF p]
  from i have ds:
    "dateStr r = fourDigits (year r) @ ''/'' @ twoDigits (month r) @ ''/'' @ twoDigits (day r)"
    and ts:
    "timeStr r = twoDigits (hour r) @ '':'' @ twoDigits (minute r) @ '':'' @ twoDigits (second r)"
    by simp_all
  have "reparseDate_spec (dateStr r) = Some (year r, month r, day r)"
    unfolding ds using i by (intro reparseDate_formatted) simp_all
  moreover have "reparseTime_spec (timeStr r) = Some (hour r, minute r, second r)"
    unfolding ts using i by (intro reparseTime_formatted) simp_all
  ultimately show ?thesis using p by blast
qed

theorem timestamp_roundtrip_witness:
  "validTimestampText ''25011013'' ''30450000'' \<and>
   parseDateTimeFromTwoHex ''25011013'' ''30450000'' = Inr (sampleRow 45 [] :: nat Record) \<and>
   dateStr (sampleRow 45 [] :: nat Record) = ''2025/01/10'' \<and>
   timeStr (sampleRow 45 [] :: nat Record) = ''13:30:45'' \<and>
   reparseDate_spec ''2025/01/10'' = Some (2025, 1, 10) \<and>
   reparseTime_spec ''13:30:45'' = Some (13, 30, 45)"
proof -
  have s: "dateStr (sampleRow 45 [] :: nat Record) = ''2025/01/10''"
    "timeStr (sampleRow 45 [] :: nat Record) = ''13:30:45''"
    "year (sampleRow 45 [] :: nat Record) = 2025" "month (sampleRow 45 [] :: nat Record) = 1"
    "day (sampleRow 45 [] :: nat Record) = 10" "hour (sampleRow 45 [] :: nat Record) = 13"
    "minute (sampleRow 45 [] :: nat Record) = 30" "second (sampleRow 45 [] :: nat Record) = 45"
    by (simp_all add: sampleRow_def showInt_examples)
  from timestamp_roundtrip [OF valid_sample_text, where ?'f = nat]
  obtain r :: "nat Record" where r: "parseDateTimeFromTwoHex ''25011013'' ''30450000'' = Inr r"
    and d: "reparseDate_spec (dateStr r) = Some (year r, month r, day r)"
    and t: "reparseTime_spec (timeStr r) = Some (hour r, minute r, second r)"
    by blast
  from r have "r = sampleRow 45 []" by (simp add: parseDateTime_sample)
  with d t valid_sample_text parseDateTime_sample [where ?'a = nat] show ?thesis
    by (simp only: s simp_thms)
qed




text \<open>
  C10. Inside \<^verbatim>\<open>parseBinFile\<close> the error branches of the float parser cannot be taken:
  every string of every group the loops visit is the "%08X" rendering of a 32-bit word,
  on such a string the float parser returns a value, and \<^verbatim>\<open>parseBinFile\<close> never ends
  with the too-short or the invalid-character error, whatever the file.
\<close>

theorem float_error_unreachable:
  "parseHexAsFloatLittleEndian toFloat (snprintf_08X w) = Inr (toFloat (swapBigEndianToHost w)) \<and>
   (\<exists>ws. groupsVisited bytes = Inr (map (map snprintf_08X) ws)) \<and>
   parseBinFile toFloat file \<noteq> Inl HexTooShort \<and>
   parseBinFile toFloat file \<noteq> Inl InvalidHexChar"
proof -
  from keptHexWords_rendered obtain ws where "keptHexWords_spec bytes = map snprintf_08X ws" ..
  then have "groupsVisited bytes = Inr (map (map snprintf_08X) (chunks 16 ws))"
    by (simp add: groupsVisited_eq groups16_spec_def chunks_map)
  then have g: "\<exists>ws. groupsVisited bytes = Inr (map (map snprintf_08X) ws)" ..
  have "parseBinFile toFloat file \<noteq> Inl HexTooShort \<and> parseBinFile toFloat file \<noteq> Inl InvalidHexChar"
  proof (cases "file")
    case None
    then show ?thesis by (simp add: parseBinFile_def parseBinFileWith_def)
  next
    case (Some bs)
    with parseBinFile_returns [of toFloat bs] show ?thesis by auto
  qed
  with g show ?thesis by (simp add: parseHex_rendered)
qed

end
